theory Spec2Isabelle
  imports Complex_Main "HOL-Library.Word" "HOL-Library.AList"
begin

unbundle bit_operations_syntax

section \<open>Strings and bytes\<close>

text \<open>
  A JavaScript string is a sequence of UTF-16 code units; the model writes it as the list
  of their numbers.  The string literals of the source are ASCII and are written with
  \<open>js\<close>.  A byte of a \<open>Buffer\<close> is an 8-bit word.
\<close>

type_synonym jsstring = "nat list"
type_synonym byte = "8 word"

definition js :: "string \<Rightarrow> jsstring" where
  "js s = map of_char s"

text \<open>
  \<open>buf.toString('utf-8')\<close>: the decoder of the runtime.  Every byte sequence decodes;
  a byte that cannot start or continue a well-formed sequence yields the replacement
  character U+FFFD and decoding resumes at that byte (a truncated sequence at the end
  of the buffer yields one U+FFFD as well).  The arguments are the number of
  continuation bytes still needed, the code point so far, and the bounds the next
  continuation byte has to respect.
\<close>

definition emit_cp :: "nat \<Rightarrow> jsstring" where
  "emit_cp cp =
     (if cp < 0x10000 then [cp]
      else [0xD800 + (cp - 0x10000) div 0x400, 0xDC00 + (cp - 0x10000) mod 0x400])"

function utf8_go :: "nat \<Rightarrow> nat \<Rightarrow> byte \<Rightarrow> byte \<Rightarrow> byte list \<Rightarrow> jsstring" where
  "utf8_go needed cp lo hi [] = (if needed = 0 then [] else [0xFFFD])"
| "utf8_go needed cp lo hi (b # bs) =
     (if needed = 0 then
        (if b \<le> 0x7F then unat b # utf8_go 0 0 0x80 0xBF bs
         else if 0xC2 \<le> b \<and> b \<le> 0xDF then utf8_go 1 (unat (b AND 0x1F)) 0x80 0xBF bs
         else if 0xE0 \<le> b \<and> b \<le> 0xEF then
           utf8_go 2 (unat (b AND 0x0F))
             (if b = 0xE0 then 0xA0 else 0x80) (if b = 0xED then 0x9F else 0xBF) bs
         else if 0xF0 \<le> b \<and> b \<le> 0xF4 then
           utf8_go 3 (unat (b AND 0x07))
             (if b = 0xF0 then 0x90 else 0x80) (if b = 0xF4 then 0x8F else 0xBF) bs
         else 0xFFFD # utf8_go 0 0 0x80 0xBF bs)
      else if b < lo \<or> hi < b then 0xFFFD # utf8_go 0 0 0x80 0xBF (b # bs)
      else
        (let cp' = cp * 64 + unat (b AND 0x3F) in
         if needed = 1 then emit_cp cp' @ utf8_go 0 0 0x80 0xBF bs
         else utf8_go (needed - 1) cp' 0x80 0xBF bs))"
  by pat_completeness auto
termination
  by (relation "measure (\<lambda>(needed, cp, lo, hi, bs). 2 * length bs + (if needed = 0 then 0 else 1))")
     auto

definition utf8_toString :: "byte list \<Rightarrow> jsstring" where
  "utf8_toString buf = utf8_go 0 0 0x80 0xBF buf"

text \<open>\<open>text.split('\n')\<close>: never empty; the last element is the text after the last newline.\<close>

fun split_nl :: "jsstring \<Rightarrow> jsstring list" where
  "split_nl [] = [[]]"
| "split_nl (c # cs) =
     (if c = 10 then [] # split_nl cs
      else (case split_nl cs of [] \<Rightarrow> [[c]] | l # ls \<Rightarrow> (c # l) # ls))"

text \<open>The white space and line terminators that \<open>String.prototype.trim\<close> removes.\<close>

definition is_js_space :: "nat \<Rightarrow> bool" where
  "is_js_space c \<longleftrightarrow>
     (9 \<le> c \<and> c \<le> 13) \<or> c = 0x20 \<or> c = 0xA0 \<or> c = 0x1680 \<or> (0x2000 \<le> c \<and> c \<le> 0x200A)
     \<or> c = 0x2028 \<or> c = 0x2029 \<or> c = 0x202F \<or> c = 0x205F \<or> c = 0x3000 \<or> c = 0xFEFF"

text \<open>\<open>!line.trim()\<close>: the trimmed string is empty, so the line is only white space.\<close>

definition blank :: "jsstring \<Rightarrow> bool" where
  "blank l = list_all is_js_space l"


section \<open>The data model\<close>

text \<open>
  A \<open>vscode.Terminal\<close> is an object compared by identity: a number names it.  The field
  \<open>id\<close> of \<open>AgentState\<close> is written \<open>agent_id\<close> (\<open>id\<close> is the identity function of HOL).
  \<open>activeToolIds\<close> is a \<open>Set\<close> that the program never iterates; \<open>activeToolStatuses\<close> is a
  \<open>Map\<close> that it does iterate, so the model keeps its insertion order in an association
  list (\<open>AList.update\<close> overwrites in place or appends, as \<open>Map.prototype.set\<close> does).
\<close>

type_synonym terminal = nat

record AgentState =
  agent_id :: nat
  terminalRef :: terminal
  projectDir :: jsstring
  jsonlFile :: jsstring
  fileOffset :: nat
  lineBuffer :: jsstring
  activeToolIds :: "jsstring set"
  activeToolStatuses :: "(jsstring \<times> jsstring) list"
  isWaiting :: bool

text \<open>The messages that \<open>webview.postMessage\<close> receives.\<close>

datatype status = Active | Waiting

datatype message =
    AgentCreated nat
  | AgentClosed nat
  | AgentStatus nat status
  | AgentToolStart nat jsstring jsstring
  | AgentToolDone nat jsstring
  | AgentToolsClear nat
  | ExistingAgents "nat list"

text \<open>
  The callbacks the program hands to \<open>setInterval\<close> and \<open>setTimeout\<close>, each with the
  variables its closure captured: the periodic scan of a terminal (line 118), the
  backup poll of an agent (line 205), the waiting debounce (line 354) and the delayed
  tool-done message (line 417).  A timer is the delay and the callback; an interval stays
  in the table of the event loop after it fires, a timeout leaves it.
\<close>

datatype callback =
    ScanTick terminal "jsstring option"
  | PollTick nat
  | WaitingFire nat
  | ToolDoneFire nat jsstring

datatype timer = Timeout nat callback | Interval nat callback

text \<open>
  The fields of \<open>ArcadiaViewProvider\<close>, followed by what the runtime holds for it: the live
  timers by handle, the next fresh handle, and the messages posted so far.
  \<open>webviewView\<close> is true once the view is set (\<open>this.webviewView?.\<close> posts nothing before).
  An entry of \<open>fileWatchers\<close> is an open \<open>FSWatcher\<close> on the path it holds.  The maps whose
  order the program never reads are functions.
\<close>

record provider =
  nextAgentId :: nat
  agents :: "(nat \<times> AgentState) list"
  claimedFiles :: "jsstring set"
  webviewView :: bool
  fileWatchers :: "nat \<rightharpoonup> jsstring"
  pollingTimers :: "nat \<rightharpoonup> nat"
  waitingTimers :: "nat \<rightharpoonup> nat"
  terminalProjectDirs :: "terminal \<rightharpoonup> jsstring"
  terminalScanTimers :: "terminal \<rightharpoonup> nat"
  timers :: "nat \<rightharpoonup> timer"
  nextTimer :: nat
  posted :: "message list"

definition init :: provider where
  "init = \<lparr> nextAgentId = 1, agents = [], claimedFiles = {}, webviewView = False,
            fileWatchers = Map.empty, pollingTimers = Map.empty, waitingTimers = Map.empty,
            terminalProjectDirs = Map.empty, terminalScanTimers = Map.empty,
            timers = Map.empty, nextTimer = 0, posted = [] \<rparr>"

text \<open>
  What the program sees of the outside at one callback: the files (absent: \<open>statSync\<close>
  throws and \<open>existsSync\<close> is false), the directory listings (absent: \<open>readdirSync\<close>
  throws), the clock \<open>Date.now()\<close> in milliseconds, the setting
  \<open>arcadia.sessionMaxAgeSecs\<close>, the home directory and the first workspace folder.
  \<open>mtimeMs\<close> has digits below the millisecond and the setting may be a fraction, so the
  times are real numbers; the model subtracts and compares them exactly.
\<close>

datatype fsfile = File (mtimeMs: real) (readable: bool) (bytes: "byte list")

record env =
  fs_file :: "jsstring \<rightharpoonup> fsfile"
  fs_readdir :: "jsstring \<rightharpoonup> jsstring list"
  now :: real
  sessionMaxAgeSecs :: real
  homedir :: jsstring
  workspaceFolder :: "jsstring option"

text \<open>
  A parsed transcript record, as far as \<open>processTranscriptLine\<close> reads it, with the types
  its casts declare (lines 376 and 408).  \<open>rec_type\<close> and \<open>rec_subtype\<close> are \<open>record.type\<close>
  and \<open>record.subtype\<close> when they are strings; \<open>rec_content\<close> is \<open>record.message?.content\<close>:
  an array, a string, or anything else.  An element of the array is \<open>None\<close> when it is
  \<open>null\<close>, on which reading \<open>.type\<close> throws; otherwise it is a block, whose \<open>b_type\<close> is the
  empty string when the element has no string \<open>type\<close> (no literal of the program equals
  it).

  A value of \<open>input\<close> is of type \<open>unknown\<close>.  The program asks of \<open>file_path\<close> whether it is a
  string; \<open>command\<close> it casts to a string without a test (line 455).  \<open>JOther None\<close> is a
  value that is no string and falsy (\<open>null\<close>, \<open>false\<close>, \<open>0\<close>); \<open>JOther (Some x)\<close> is any other
  value that is no string, with what lines 455 and 456 make of it as a command: the
  text that \<open>cmd.length > 30 ? cmd.slice(0, 30) + '\u2026' : cmd\<close> interpolates, or the
  \<open>TypeError\<close> it throws (an object with a large \<open>length\<close> has no \<open>slice\<close>).
\<close>

datatype exn = TypeError

datatype jsval = JString jsstring | JOther "(exn + jsstring) option"

record block =
  b_type :: jsstring
  b_id :: "jsstring option"
  b_name :: "jsstring option"
  b_input :: "(jsstring \<rightharpoonup> jsval) option"
  b_tool_use_id :: "jsstring option"

datatype content = Blocks "block option list" | Str jsstring | NoContent

record transcript_record =
  rec_type :: "jsstring option"
  rec_subtype :: "jsstring option"
  rec_content :: content

section \<open>The transcript interpreter\<close>

definition post :: "message \<Rightarrow> provider \<Rightarrow> provider" where
  "post m s = (if webviewView s then s\<lparr>posted := posted s @ [m]\<rparr> else s)"

text \<open>An assignment to a field of the agent object registered under \<open>agentId\<close>.\<close>

definition modify :: "nat \<Rightarrow> (AgentState \<Rightarrow> AgentState) \<Rightarrow> provider \<Rightarrow> provider" where
  "modify agentId f s = s\<lparr>agents := AList.map_entry agentId f (agents s)\<rparr>"

text \<open>\<open>setTimeout\<close> and \<open>setInterval\<close> return the fresh handle \<open>nextTimer s\<close>.\<close>

definition addTimer :: "timer \<Rightarrow> provider \<Rightarrow> provider" where
  "addTimer t s = s\<lparr>timers := (timers s)(nextTimer s \<mapsto> t), nextTimer := Suc (nextTimer s)\<rparr>"

definition clearTimer :: "nat \<Rightarrow> provider \<Rightarrow> provider" where
  "clearTimer h s = s\<lparr>timers := (timers s)(h := None)\<rparr>"

definition clearAgentActivity :: "nat \<Rightarrow> provider \<Rightarrow> provider" where
  "clearAgentActivity agentId s =
     (case map_of (agents s) agentId of
        None \<Rightarrow> s
      | Some agent \<Rightarrow>
          post (AgentStatus agentId Active) (post (AgentToolsClear agentId)
            (modify agentId
               (\<lambda>a. a\<lparr>activeToolIds := {}, activeToolStatuses := [], isWaiting := False\<rparr>) s)))"

definition cancelWaitingTimer :: "nat \<Rightarrow> provider \<Rightarrow> provider" where
  "cancelWaitingTimer agentId s =
     (case waitingTimers s agentId of
        None \<Rightarrow> s
      | Some t \<Rightarrow> (clearTimer t s)\<lparr>waitingTimers := (waitingTimers s)(agentId := None)\<rparr>)"

definition startWaitingTimer :: "nat \<Rightarrow> nat \<Rightarrow> provider \<Rightarrow> provider" where
  "startWaitingTimer agentId delayMs s =
     (let s1 = cancelWaitingTimer agentId s;
          t = nextTimer s1;
          s2 = addTimer (Timeout delayMs (WaitingFire agentId)) s1
      in s2\<lparr>waitingTimers := (waitingTimers s2)(agentId \<mapsto> t)\<rparr>)"

text \<open>The body of the callback that \<open>startWaitingTimer\<close> arms (lines 355 to 364).\<close>

definition waitingTimerFired :: "nat \<Rightarrow> provider \<Rightarrow> provider" where
  "waitingTimerFired agentId s =
     (let s1 = s\<lparr>waitingTimers := (waitingTimers s)(agentId := None)\<rparr>;
          s2 = (case map_of (agents s1) agentId of
                  None \<Rightarrow> s1
                | Some agent \<Rightarrow> modify agentId (\<lambda>a. a\<lparr>isWaiting := True\<rparr>) s1)
      in post (AgentStatus agentId Waiting) s2)"

text \<open>
  \<open>path.basename\<close> on a POSIX path: trailing slashes are dropped, then what follows the
  last slash is kept.
\<close>

definition basename :: "jsstring \<Rightarrow> jsstring" where
  "basename p = rev (takeWhile (\<lambda>c. c \<noteq> 47) (dropWhile (\<lambda>c. c = 47) (rev p)))"

definition formatToolStatus :: "jsstring \<Rightarrow> (jsstring \<rightharpoonup> jsval) \<Rightarrow> exn + jsstring" where
  "formatToolStatus toolName input =
     (let base = (\<lambda>p. case p of Some (JString x) \<Rightarrow> basename x | _ \<Rightarrow> []) in
      if toolName = js ''Read'' then Inr (js ''Reading '' @ base (input (js ''file_path'')))
      else if toolName = js ''Edit'' then Inr (js ''Editing '' @ base (input (js ''file_path'')))
      else if toolName = js ''Write'' then Inr (js ''Writing '' @ base (input (js ''file_path'')))
      else if toolName = js ''Bash'' then
        (case input (js ''command'') of
           Some (JString cmd) \<Rightarrow>
             Inr (js ''Running: '' @ (if length cmd > 30 then take 30 cmd @ [0x2026] else cmd))
         | Some (JOther (Some (Inl err))) \<Rightarrow> Inl err
         | Some (JOther (Some (Inr shown))) \<Rightarrow> Inr (js ''Running: '' @ shown)
         | _ \<Rightarrow> Inr (js ''Running: ''))
      else if toolName = js ''Glob'' then Inr (js ''Searching files'')
      else if toolName = js ''Grep'' then Inr (js ''Searching code'')
      else if toolName = js ''WebFetch'' then Inr (js ''Fetching web content'')
      else if toolName = js ''WebSearch'' then Inr (js ''Searching the web'')
      else if toolName = js ''Task'' then Inr (js ''Running subtask'')
      else if toolName = js ''AskUserQuestion'' then Inr (js ''Waiting for your answer'')
      else if toolName = js ''EnterPlanMode'' then Inr (js ''Planning'')
      else if toolName = js ''NotebookEdit'' then Inr (js ''Editing notebook'')
      else Inr (js ''Using '' @ toolName))"

text \<open>
  \<open>blocks.some(b => b.type === t)\<close>: it stops at the first block of type \<open>t\<close>, and throws
  when it reaches a \<open>null\<close> before one.
\<close>

fun someType :: "jsstring \<Rightarrow> block option list \<Rightarrow> exn + bool" where
  "someType t [] = Inr False"
| "someType t (None # bs) = Inl TypeError"
| "someType t (Some b # bs) = (if b_type b = t then Inr True else someType t bs)"

text \<open>
  One turn of the loop of lines 385 to 398 over the blocks of an assistant record.
  \<open>block.id\<close> is truthy when it is present and not the empty string; \<open>block.name || ''\<close> and
  \<open>block.input || {}\<close> supply the defaults.  When \<open>formatToolStatus\<close> throws, nothing of this
  turn has happened yet.
\<close>

definition toolStart :: "nat \<Rightarrow> block \<Rightarrow> provider \<Rightarrow> exn + provider" where
  "toolStart agentId b s =
     (case b_id b of
        None \<Rightarrow> Inr s
      | Some tid \<Rightarrow>
          if b_type b = js ''tool_use'' \<and> tid \<noteq> [] then
            (case formatToolStatus
                   (case b_name b of None \<Rightarrow> [] | Some n \<Rightarrow> n)
                   (case b_input b of None \<Rightarrow> Map.empty | Some i \<Rightarrow> i) of
               Inl err \<Rightarrow> Inl err
             | Inr status \<Rightarrow>
                 Inr (post (AgentToolStart agentId tid status)
                  (modify agentId
                     (\<lambda>a. a\<lparr>activeToolIds := insert tid (activeToolIds a),
                             activeToolStatuses := AList.update tid status (activeToolStatuses a)\<rparr>)
                     s)))
          else Inr s)"

text \<open>
  The loop itself.  An exception (a \<open>null\<close> block, a throwing \<open>formatToolStatus\<close>) ends it:
  the \<open>catch\<close> of line 443 swallows it, and what the earlier turns did stays done.
\<close>

fun toolStartLoop :: "nat \<Rightarrow> block option list \<Rightarrow> provider \<Rightarrow> provider" where
  "toolStartLoop agentId [] s = s"
| "toolStartLoop agentId (None # bs) s = s"
| "toolStartLoop agentId (Some b # bs) s =
     (case toolStart agentId b s of
        Inl err \<Rightarrow> s
      | Inr s' \<Rightarrow> toolStartLoop agentId bs s')"

text \<open>
  One turn of the loop of lines 411 to 425 over the blocks of a user record: the id
  leaves the set and the map, and a timeout of 300 ms is armed that will post the
  tool-done message.  The loop ends at a \<open>null\<close> block as the one above does.
\<close>

definition toolResult :: "nat \<Rightarrow> block \<Rightarrow> provider \<Rightarrow> provider" where
  "toolResult agentId b s =
     (case b_tool_use_id b of
        None \<Rightarrow> s
      | Some toolId \<Rightarrow>
          if b_type b = js ''tool_result'' \<and> toolId \<noteq> [] then
            addTimer (Timeout 300 (ToolDoneFire agentId toolId))
              (modify agentId
                 (\<lambda>a. a\<lparr>activeToolIds := activeToolIds a - {toolId},
                         activeToolStatuses := AList.delete toolId (activeToolStatuses a)\<rparr>)
                 s)
          else s)"

fun toolResultLoop :: "nat \<Rightarrow> block option list \<Rightarrow> provider \<Rightarrow> provider" where
  "toolResultLoop agentId [] s = s"
| "toolResultLoop agentId (None # bs) s = s"
| "toolResultLoop agentId (Some b # bs) s = toolResultLoop agentId bs (toolResult agentId b s)"

text \<open>
  The body of the \<open>try\<close> of \<open>processTranscriptLine\<close> after \<open>JSON.parse\<close>, with the order of
  its tests.  An assistant record whose content is no array matches no later test.  An
  exception in a test of \<open>some\<close> comes before anything is changed.
\<close>

definition interpretRecord :: "nat \<Rightarrow> transcript_record \<Rightarrow> provider \<Rightarrow> provider" where
  "interpretRecord agentId r s =
     (case (if rec_type r = Some (js ''assistant'') then rec_content r else NoContent) of
        Blocks blocks \<Rightarrow>
          (case someType (js ''tool_use'') blocks of
             Inl err \<Rightarrow> s
           | Inr hasToolUse \<Rightarrow>
               if hasToolUse then
                 toolStartLoop agentId blocks
                   (post (AgentStatus agentId Active)
                      (modify agentId (\<lambda>a. a\<lparr>isWaiting := False\<rparr>) (cancelWaitingTimer agentId s)))
               else
                 (case someType (js ''text'') blocks of
                    Inl err \<Rightarrow> s
                  | Inr hasText \<Rightarrow> if hasText then startWaitingTimer agentId 2000 s else s))
      | _ \<Rightarrow>
          if rec_type r = Some (js ''user'') then
            (case rec_content r of
               Blocks blocks \<Rightarrow>
                 (case someType (js ''tool_result'') blocks of
                    Inl err \<Rightarrow> s
                  | Inr hasToolResult \<Rightarrow>
                      if hasToolResult then toolResultLoop agentId blocks s
                      else clearAgentActivity agentId (cancelWaitingTimer agentId s))
             | Str c \<Rightarrow>
                 if \<not> blank c then clearAgentActivity agentId (cancelWaitingTimer agentId s)
                 else s
             | NoContent \<Rightarrow> s)
          else if rec_type r = Some (js ''system'') \<and> rec_subtype r = Some (js ''turn_duration'')
          then
            post (AgentStatus agentId Waiting)
              (modify agentId (\<lambda>a. a\<lparr>isWaiting := True\<rparr>) (cancelWaitingTimer agentId s))
          else s)"

text \<open>
  \<open>parse\<close> stands for \<open>JSON.parse\<close> followed by the reading of the fields above; it is
  \<open>None\<close> where that throws (a line that is not JSON, the value \<open>null\<close>), which the \<open>catch\<close>
  of line 443 ignores.
\<close>

definition processTranscriptLine ::
  "(jsstring \<Rightarrow> transcript_record option) \<Rightarrow> nat \<Rightarrow> jsstring \<Rightarrow> provider \<Rightarrow> provider" where
  "processTranscriptLine parse agentId line s =
     (case map_of (agents s) agentId of
        None \<Rightarrow> s
      | Some agent \<Rightarrow>
          (case parse line of
             None \<Rightarrow> s
           | Some r \<Rightarrow> interpretRecord agentId r s))"


section \<open>The tailing reader\<close>

text \<open>
  The longest string the runtime makes (\<open>buffer.constants.MAX_STRING_LENGTH\<close>, which is
  536870888 code units): \<open>buf.toString\<close> and the concatenation with \<open>lineBuffer\<close> throw
  beyond it.
\<close>

definition maxStringLength :: nat where
  "maxStringLength = 536870888"

text \<open>
  \<open>readNewLines\<close>.  \<open>statSync\<close> throws when the file is absent, \<open>openSync\<close> when it cannot be
  read; the \<open>catch\<close> of line 329 leaves the agent as it was.  Otherwise the bytes from
  \<open>fileOffset\<close> to the size are read and the offset becomes the size (line 319).  Then
  the decoded bytes are appended to \<open>lineBuffer\<close>; when the text would be longer than a
  string can be, that throws, and the \<open>catch\<close> leaves the agent with the new offset and
  nothing else.  Otherwise the text is split at the newlines, the last piece becomes the
  new \<open>lineBuffer\<close> and every other piece that is not blank goes to
  \<open>processTranscriptLine\<close>, in order.
\<close>

definition readNewLines ::
  "(jsstring \<Rightarrow> transcript_record option) \<Rightarrow> env \<Rightarrow> nat \<Rightarrow> provider \<Rightarrow> provider" where
  "readNewLines parse e agentId s =
     (case map_of (agents s) agentId of
        None \<Rightarrow> s
      | Some agent \<Rightarrow>
          (case fs_file e (jsonlFile agent) of
             None \<Rightarrow> s
           | Some f \<Rightarrow>
               if length (bytes f) \<le> fileOffset agent then s
               else if \<not> readable f then s
               else
                 (let buf = drop (fileOffset agent) (bytes f);
                      s0 = modify agentId (\<lambda>a. a\<lparr>fileOffset := length (bytes f)\<rparr>) s;
                      decoded = utf8_toString buf
                  in if maxStringLength < length decoded
                        \<or> maxStringLength < length (lineBuffer agent @ decoded) then s0
                     else
                       (let text = lineBuffer agent @ decoded;
                            lines = split_nl text;
                            s1 = modify agentId (\<lambda>a. a\<lparr>lineBuffer := last lines\<rparr>) s0
                        in fold (\<lambda>line st. if blank line then st
                                            else processTranscriptLine parse agentId line st)
                             (butlast lines) s1))))"


section \<open>Agents: creation, watching, removal\<close>

text \<open>
  \<open>startFileWatching\<close>: \<open>fs.watch\<close> throws on a path that does not exist, and then no
  watcher is stored; the backup poll is armed in both cases.
\<close>

definition startFileWatching :: "env \<Rightarrow> nat \<Rightarrow> jsstring \<Rightarrow> provider \<Rightarrow> provider" where
  "startFileWatching e agentId filePath s =
     (let s1 = (case fs_file e filePath of
                  None \<Rightarrow> s
                | Some f \<Rightarrow> s\<lparr>fileWatchers := (fileWatchers s)(agentId \<mapsto> filePath)\<rparr>);
          interval = nextTimer s1;
          s2 = addTimer (Interval 2000 (PollTick agentId)) s1
      in s2\<lparr>pollingTimers := (pollingTimers s2)(agentId \<mapsto> interval)\<rparr>)"

definition createAgentFromFile ::
  "(jsstring \<Rightarrow> transcript_record option) \<Rightarrow> env \<Rightarrow> terminal \<Rightarrow> jsstring \<Rightarrow> jsstring \<Rightarrow>
     provider \<Rightarrow> provider" where
  "createAgentFromFile parse e terminal filePath projDir s =
     (let ident = nextAgentId s;
          agent = \<lparr> agent_id = ident, terminalRef = terminal, projectDir = projDir,
                    jsonlFile = filePath, fileOffset = 0, lineBuffer = [],
                    activeToolIds = {}, activeToolStatuses = [], isWaiting = False \<rparr>;
          s1 = s\<lparr>nextAgentId := Suc ident\<rparr>;
          s2 = s1\<lparr>agents := AList.update ident agent (agents s1)\<rparr>;
          s3 = s2\<lparr>claimedFiles := insert filePath (claimedFiles s2)\<rparr>;
          s4 = post (AgentCreated ident) s3;
          s5 = startFileWatching e ident filePath s4
      in readNewLines parse e ident s5)"

definition removeAgent :: "nat \<Rightarrow> provider \<Rightarrow> provider" where
  "removeAgent agentId s =
     (case map_of (agents s) agentId of
        None \<Rightarrow> s
      | Some agent \<Rightarrow>
          (let s1 = s\<lparr>fileWatchers := (fileWatchers s)(agentId := None)\<rparr>;
               s2 = (case pollingTimers s1 agentId of
                       None \<Rightarrow> s1
                     | Some pt \<Rightarrow> clearTimer pt s1);
               s3 = s2\<lparr>pollingTimers := (pollingTimers s2)(agentId := None)\<rparr>;
               s4 = cancelWaitingTimer agentId s3;
               s5 = s4\<lparr>claimedFiles := claimedFiles s4 - {jsonlFile agent}\<rparr>
           in s5\<lparr>agents := AList.delete agentId (agents s5)\<rparr>))"

section \<open>The directory scanner\<close>

text \<open>
  \<open>path.join\<close> on POSIX paths.  The arguments that are not empty are put together with a
  slash between them, and the result is normalised: empty segments and \<open>.\<close> are dropped;
  \<open>..\<close> removes the segment before it, is dropped at the root, and stays in a relative
  path that has nothing left to remove; a trailing slash is kept; the empty result is
  \<open>.\<close>, or \<open>/\<close> for an absolute path.
\<close>

fun split_on :: "nat \<Rightarrow> jsstring \<Rightarrow> jsstring list" where
  "split_on sep [] = [[]]"
| "split_on sep (c # cs) =
     (if c = sep then [] # split_on sep cs
      else (case split_on sep cs of [] \<Rightarrow> [[c]] | l # ls \<Rightarrow> (c # l) # ls))"

fun joinSlash :: "jsstring list \<Rightarrow> jsstring" where
  "joinSlash [] = []"
| "joinSlash [x] = x"
| "joinSlash (x # y # zs) = x @ [47] @ joinSlash (y # zs)"

fun normalizeSegments :: "bool \<Rightarrow> jsstring list \<Rightarrow> jsstring list \<Rightarrow> jsstring list" where
  "normalizeSegments allowAboveRoot res [] = rev res"
| "normalizeSegments allowAboveRoot res (seg # segs) =
     (if seg = [] \<or> seg = js ''.'' then normalizeSegments allowAboveRoot res segs
      else if seg = js ''..'' then
        (case res of
           [] \<Rightarrow> normalizeSegments allowAboveRoot (if allowAboveRoot then [seg] else []) segs
         | lastSeg # rest \<Rightarrow>
             if lastSeg = js ''..''
             then normalizeSegments allowAboveRoot (if allowAboveRoot then seg # res else res) segs
             else normalizeSegments allowAboveRoot rest segs)
      else normalizeSegments allowAboveRoot (seg # res) segs)"

definition path_normalize :: "jsstring \<Rightarrow> jsstring" where
  "path_normalize path =
     (case path of
        [] \<Rightarrow> js ''.''
      | c # cs \<Rightarrow>
          (let isAbsolute = (c = 47);
               trailingSeparator = (last (c # cs) = 47);
               p = joinSlash (normalizeSegments (\<not> isAbsolute) [] (split_on 47 path))
           in if p = [] then
                (if isAbsolute then js ''/'' else if trailingSeparator then js ''./'' else js ''.'')
              else (if isAbsolute then [47] else []) @ p @ (if trailingSeparator then [47] else [])))"

definition path_join_list :: "jsstring list \<Rightarrow> jsstring" where
  "path_join_list args =
     (let parts = filter (\<lambda>a. a \<noteq> []) args in
      if parts = [] then js ''.'' else path_normalize (joinSlash parts))"

definition path_join :: "jsstring \<Rightarrow> jsstring \<Rightarrow> jsstring" where
  "path_join d f = path_join_list [d, f]"

definition endsWith :: "jsstring \<Rightarrow> jsstring \<Rightarrow> bool" where
  "endsWith suf f \<longleftrightarrow> length suf \<le> length f \<and> drop (length f - length suf) f = suf"

definition getProjectDirPath :: "env \<Rightarrow> jsstring option \<Rightarrow> jsstring option" where
  "getProjectDirPath e cwd =
     (let workspacePath = (case cwd of
                             None \<Rightarrow> workspaceFolder e
                           | Some c \<Rightarrow> if c = [] then workspaceFolder e else Some c)
      in case workspacePath of
           None \<Rightarrow> None
         | Some w \<Rightarrow>
             if w = [] then None
             else
               (let dirName = map (\<lambda>c. if c = 58 \<or> c = 92 \<or> c = 47 then 45 else c) w
                in Some (path_join_list [homedir e, js ''.claude'', js ''projects'', dirName])))"

text \<open>\<open>isFileRecent\<close>: the setting \<open>0\<close> accepts every path, before the file is looked at.\<close>

definition isFileRecent :: "env \<Rightarrow> jsstring \<Rightarrow> bool" where
  "isFileRecent e filePath =
     (let maxAge = sessionMaxAgeSecs e in
      if maxAge = 0 then True
      else (case fs_file e filePath of
              None \<Rightarrow> False
            | Some f \<Rightarrow> now e - mtimeMs f < maxAge * 1000))"

text \<open>The first block of \<open>scanForNewFiles\<close> (lines 136 to 146): the file named by the session.\<close>

definition claimSessionFile ::
  "(jsstring \<Rightarrow> transcript_record option) \<Rightarrow> env \<Rightarrow> terminal \<Rightarrow> jsstring option \<Rightarrow> jsstring \<Rightarrow>
     provider \<Rightarrow> provider" where
  "claimSessionFile parse e terminal sessionId projDir s =
     (case sessionId of
        None \<Rightarrow> s
      | Some sid \<Rightarrow>
          if sid = [] then s
          else
            (let expectedFile = path_join projDir (sid @ js ''.jsonl'') in
             if fs_file e expectedFile \<noteq> None \<and> expectedFile \<notin> claimedFiles s
             then createAgentFromFile parse e terminal expectedFile projDir s
             else s))"

text \<open>The body of the loop of lines 158 to 163.\<close>

definition claimIfRecent ::
  "(jsstring \<Rightarrow> transcript_record option) \<Rightarrow> env \<Rightarrow> terminal \<Rightarrow> jsstring \<Rightarrow> jsstring \<Rightarrow>
     provider \<Rightarrow> provider" where
  "claimIfRecent parse e terminal projDir file s =
     (if file \<notin> claimedFiles s \<and> isFileRecent e file
      then createAgentFromFile parse e terminal file projDir s
      else s)"

definition scanForNewFiles ::
  "(jsstring \<Rightarrow> transcript_record option) \<Rightarrow> env \<Rightarrow> terminal \<Rightarrow> jsstring option \<Rightarrow>
     provider \<Rightarrow> provider" where
  "scanForNewFiles parse e terminal sessionId s =
     (case terminalProjectDirs s terminal of
        None \<Rightarrow> s
      | Some projDir \<Rightarrow>
          if projDir = [] then s
          else
            (let s1 = claimSessionFile parse e terminal sessionId projDir s in
             case fs_readdir e projDir of
               None \<Rightarrow> s1
             | Some names \<Rightarrow>
                 fold (claimIfRecent parse e terminal projDir)
                   (map (path_join projDir) (filter (endsWith (js ''.jsonl'')) names)) s1))"

definition startTerminalFileScan ::
  "env \<Rightarrow> terminal \<Rightarrow> jsstring option \<Rightarrow> jsstring option \<Rightarrow> provider \<Rightarrow> provider" where
  "startTerminalFileScan e terminal sessionId cwd s =
     (case getProjectDirPath e cwd of
        None \<Rightarrow> s
      | Some projDir \<Rightarrow>
          if projDir = [] then s
          else
            (let s1 = s\<lparr>terminalProjectDirs := (terminalProjectDirs s)(terminal \<mapsto> projDir)\<rparr>;
                 scanInterval = nextTimer s1;
                 s2 = addTimer (Interval 1000 (ScanTick terminal sessionId)) s1
             in s2\<lparr>terminalScanTimers := (terminalScanTimers s2)(terminal \<mapsto> scanInterval)\<rparr>))"

definition cleanupTerminalScan :: "terminal \<Rightarrow> provider \<Rightarrow> provider" where
  "cleanupTerminalScan terminal s =
     (let s1 = (case terminalScanTimers s terminal of
                  None \<Rightarrow> s
                | Some t \<Rightarrow> clearTimer t s)
      in s1\<lparr>terminalScanTimers := (terminalScanTimers s1)(terminal := None),
             terminalProjectDirs := (terminalProjectDirs s1)(terminal := None)\<rparr>)"

section \<open>The handlers of the event loop\<close>

text \<open>
  The handler of \<open>onDidCloseTerminal\<close> (lines 72 to 81): every agent of the closed terminal
  is removed and reported closed, in the order of the map; then the scan of the terminal
  stops.
\<close>

definition closeAgentOf :: "terminal \<Rightarrow> nat \<times> AgentState \<Rightarrow> provider \<Rightarrow> provider" where
  "closeAgentOf closedTerminal p s =
     (if terminalRef (snd p) = closedTerminal then post (AgentClosed (fst p)) (removeAgent (fst p) s)
      else s)"

definition onDidCloseTerminal :: "terminal \<Rightarrow> provider \<Rightarrow> provider" where
  "onDidCloseTerminal closedTerminal s = cleanupTerminalScan closedTerminal (fold (closeAgentOf closedTerminal) (agents s) s)"

text \<open>\<open>sendCurrentAgentStatuses\<close> and \<open>sendExistingAgents\<close>, the answer to \<open>webviewReady\<close>.\<close>

definition sendAgentStatus :: "nat \<times> AgentState \<Rightarrow> provider \<Rightarrow> provider" where
  "sendAgentStatus p s =
     (let s1 = fold (\<lambda>ts. post (AgentToolStart (fst p) (fst ts) (snd ts)))
                 (activeToolStatuses (snd p)) s
      in if isWaiting (snd p) then post (AgentStatus (fst p) Waiting) s1 else s1)"

definition sendCurrentAgentStatuses :: "provider \<Rightarrow> provider" where
  "sendCurrentAgentStatuses s = (if \<not> webviewView s then s else fold sendAgentStatus (agents s) s)"

definition sendExistingAgents :: "provider \<Rightarrow> provider" where
  "sendExistingAgents s =
     (if \<not> webviewView s then s
      else sendCurrentAgentStatuses (post (ExistingAgents (sort (map fst (agents s)))) s))"

text \<open>
  What runs when the timer with handle \<open>h\<close> fires.  The poll stops itself when its agent
  is gone (line 206).
\<close>

definition runCallback ::
  "(jsstring \<Rightarrow> transcript_record option) \<Rightarrow> env \<Rightarrow> nat \<Rightarrow> callback \<Rightarrow> provider \<Rightarrow> provider" where
  "runCallback parse e h c s =
     (case c of
        ScanTick terminal sessionId \<Rightarrow> scanForNewFiles parse e terminal sessionId s
      | PollTick agentId \<Rightarrow>
          if map_of (agents s) agentId = None then clearTimer h s
          else readNewLines parse e agentId s
      | WaitingFire agentId \<Rightarrow> waitingTimerFired agentId s
      | ToolDoneFire agentId toolId \<Rightarrow> post (AgentToolDone agentId toolId) s)"

definition fire ::
  "(jsstring \<Rightarrow> transcript_record option) \<Rightarrow> env \<Rightarrow> nat \<Rightarrow> provider \<Rightarrow> provider" where
  "fire parse e h s =
     (case timers s h of
        None \<Rightarrow> s
      | Some (Timeout d c) \<Rightarrow> runCallback parse e h c (clearTimer h s)
      | Some (Interval d c) \<Rightarrow> runCallback parse e h c s)"

text \<open>
  One turn of the event loop.  The view is resolved; a terminal starts being scanned
  (\<open>launchNewTerminal\<close> with a fresh session id and the workspace folder, or the adoption of
  a terminal with neither); a terminal closes; the view asks for the agents; a live timer
  fires; an open watcher reports a change.  The handlers exist once the view is resolved.
  Every turn runs to its end before the next: the loop is single-threaded.
\<close>

datatype event =
    ResolveWebviewView
  | StartScan env terminal "jsstring option" "jsstring option"
  | CloseTerminal terminal
  | WebviewReady
  | Fire env nat
  | FileChanged env nat

definition step :: "(jsstring \<Rightarrow> transcript_record option) \<Rightarrow> event \<Rightarrow> provider \<Rightarrow> provider" where
  "step parse ev s =
     (case ev of
        ResolveWebviewView \<Rightarrow> s\<lparr>webviewView := True\<rparr>
      | StartScan e terminal sessionId cwd \<Rightarrow>
          if webviewView s then startTerminalFileScan e terminal sessionId cwd s else s
      | CloseTerminal terminal \<Rightarrow> if webviewView s then onDidCloseTerminal terminal s else s
      | WebviewReady \<Rightarrow> if webviewView s then sendExistingAgents s else s
      | Fire e h \<Rightarrow> fire parse e h s
      | FileChanged e agentId \<Rightarrow>
          if fileWatchers s agentId = None then s else readNewLines parse e agentId s)"

definition run :: "(jsstring \<Rightarrow> transcript_record option) \<Rightarrow> event list \<Rightarrow> provider \<Rightarrow> provider" where
  "run parse evs s = fold (step parse) evs s"

section \<open>Vocabulary of the properties\<close>

definition lockstep :: "AgentState \<Rightarrow> bool" where
  "lockstep a \<longleftrightarrow> activeToolIds a = fst ` set (activeToolStatuses a)"

definition evolves :: "AgentState \<Rightarrow> AgentState \<Rightarrow> bool" where
  "evolves a a' \<longleftrightarrow>
     agent_id a' = agent_id a \<and> terminalRef a' = terminalRef a \<and> projectDir a' = projectDir a \<and>
     jsonlFile a' = jsonlFile a \<and> fileOffset a \<le> fileOffset a' \<and> (lockstep a \<longrightarrow> lockstep a')"

definition steady :: "provider \<Rightarrow> provider \<Rightarrow> bool" where
  "steady s s' \<longleftrightarrow>
     list_all2 (\<lambda>p q. fst p = fst q \<and> evolves (snd p) (snd q)) (agents s) (agents s') \<and>
     claimedFiles s' = claimedFiles s \<and> nextAgentId s' = nextAgentId s \<and>
     webviewView s' = webviewView s \<and> fileWatchers s' = fileWatchers s \<and>
     pollingTimers s' = pollingTimers s \<and> terminalProjectDirs s' = terminalProjectDirs s \<and>
     terminalScanTimers s' = terminalScanTimers s \<and> nextTimer s \<le> nextTimer s' \<and>
     (\<exists>ms. posted s' = posted s @ ms)"

fun timer_cb :: "timer \<Rightarrow> callback" where
  "timer_cb (Timeout d c) = c"
| "timer_cb (Interval d c) = c"

definition keys :: "provider \<Rightarrow> nat set" where
  "keys s = fst ` set (agents s)"

definition tinv :: "provider \<Rightarrow> bool" where
  "tinv s \<longleftrightarrow>
     (\<forall>h. timers s h \<noteq> None \<longrightarrow> h < nextTimer s) \<and>
     (\<forall>a h. waitingTimers s a = Some h \<longrightarrow> timers s h = Some (Timeout 2000 (WaitingFire a))) \<and>
     (\<forall>h t a. timers s h = Some t \<longrightarrow> timer_cb t = WaitingFire a \<longrightarrow> waitingTimers s a = Some h) \<and>
     (\<forall>a h. pollingTimers s a = Some h \<longrightarrow>
        h < nextTimer s \<and> (\<forall>t b. timers s h = Some t \<longrightarrow> timer_cb t \<noteq> WaitingFire b)) \<and>
     (\<forall>x h. terminalScanTimers s x = Some h \<longrightarrow>
        h < nextTimer s \<and> (\<forall>t b. timers s h = Some t \<longrightarrow> timer_cb t \<noteq> WaitingFire b))"

definition paths :: "provider \<Rightarrow> jsstring list" where
  "paths s = map (\<lambda>p. jsonlFile (snd p)) (agents s)"

definition ainv :: "provider \<Rightarrow> bool" where
  "ainv s \<longleftrightarrow>
     distinct (map fst (agents s)) \<and> (\<forall>k\<in>keys s. k < nextAgentId s) \<and> distinct (paths s) \<and>
     claimedFiles s = set (paths s) \<and> list_all (\<lambda>p. lockstep (snd p)) (agents s)"

definition ages :: "provider \<Rightarrow> provider \<Rightarrow> bool" where
  "ages s s' \<longleftrightarrow>
     (ainv s \<longrightarrow>
        ainv s' \<and> nextAgentId s \<le> nextAgentId s' \<and>
        (\<forall>k a'. map_of (agents s') k = Some a' \<longrightarrow>
           (case map_of (agents s) k of Some a \<Rightarrow> evolves a a' | None \<Rightarrow> nextAgentId s \<le> k)))"

text \<open>The state of \<open>createAgentFromFile\<close> before its initial read.\<close>

definition created :: "env \<Rightarrow> terminal \<Rightarrow> jsstring \<Rightarrow> jsstring \<Rightarrow> provider \<Rightarrow> provider" where
  "created e terminal filePath projDir s =
     startFileWatching e (nextAgentId s) filePath
       (post (AgentCreated (nextAgentId s))
          (s\<lparr>nextAgentId := Suc (nextAgentId s),
             agents := AList.update (nextAgentId s)
               \<lparr> agent_id = nextAgentId s, terminalRef = terminal, projectDir = projDir,
                 jsonlFile = filePath, fileOffset = 0, lineBuffer = [],
                 activeToolIds = {}, activeToolStatuses = [], isWaiting = False \<rparr> (agents s),
             claimedFiles := insert filePath (claimedFiles s)\<rparr>))"

text \<open>
  The invariant of the reachable states.  Before the view is resolved nothing has been
  armed, so nothing can happen.
\<close>

definition coherent :: "provider \<Rightarrow> bool" where
  "coherent s \<longleftrightarrow> ainv s \<and> tinv s \<and>
     (webviewView s \<or> (agents s = [] \<and> timers s = Map.empty \<and> fileWatchers s = Map.empty))"

text \<open>What one turn of the loop keeps: the invariants, and the view once it is set.\<close>

definition turn :: "provider \<Rightarrow> provider \<Rightarrow> bool" where
  "turn s s' \<longleftrightarrow> ages s s' \<and> (tinv s \<longrightarrow> tinv s') \<and> webviewView s' = webviewView s"

section \<open>A concrete session\<close>

text \<open>
  The examples run the model on one project directory with one transcript,
  \<open>s1.jsonl\<close>, of the session \<open>s1\<close> started in terminal 0.  The lines are the JSON the
  agent process writes; \<open>ex_parse\<close> is \<open>JSON.parse\<close> on exactly these lines.
\<close>

definition ex_dir :: jsstring where
  "ex_dir = js ''/home/u/.claude/projects/-w''"

definition ex_file :: jsstring where
  "ex_file = js ''/home/u/.claude/projects/-w/s1.jsonl''"

definition line_tool_use :: string where
  \<open>line_tool_use = ''{"type":"assistant","message":{"content":[{"type":"tool_use","id":"t1","name":"Read","input":{"file_path":"/w/a.ts"}}]}}''\<close>

definition line_text :: string where
  \<open>line_text = ''{"type":"assistant","message":{"content":[{"type":"text","text":"ok"}]}}''\<close>

definition line_tool_result :: string where
  \<open>line_tool_result = ''{"type":"user","message":{"content":[{"type":"tool_result","tool_use_id":"t1"}]}}''\<close>

definition line_turn :: string where
  \<open>line_turn = ''{"type":"system","subtype":"turn_duration"}''\<close>

definition nl :: string where
  "nl = [CHR 0x0A]"

definition ex_block :: "string \<Rightarrow> block" where
  "ex_block t = \<lparr> b_type = js t, b_id = None, b_name = None, b_input = None, b_tool_use_id = None \<rparr>"

definition ex_record :: "string \<Rightarrow> content \<Rightarrow> transcript_record" where
  "ex_record t c = \<lparr> rec_type = Some (js t), rec_subtype = None, rec_content = c \<rparr>"

definition ex_parse :: "jsstring \<Rightarrow> transcript_record option" where
  "ex_parse l =
     (if l = js line_tool_use then
        Some (ex_record ''assistant''
          (Blocks [Some ((ex_block ''tool_use'')
             \<lparr> b_id := Some (js ''t1''), b_name := Some (js ''Read''),
               b_input := Some [js ''file_path'' \<mapsto> JString (js ''/w/a.ts'')] \<rparr>)]))
      else if l = js line_text then
        Some (ex_record ''assistant'' (Blocks [Some (ex_block ''text'')]))
      else if l = js line_tool_result then
        Some (ex_record ''user''
          (Blocks [Some ((ex_block ''tool_result'')\<lparr> b_tool_use_id := Some (js ''t1'') \<rparr>)]))
      else if l = js line_turn then
        Some ((ex_record ''system'' NoContent)\<lparr> rec_subtype := Some (js ''turn_duration'') \<rparr>)
      else None)"

text \<open>The outside when the transcript holds \<open>text\<close>: the clock is 1000 s past its writing.\<close>

definition ex_env :: "string \<Rightarrow> env" where
  "ex_env text =
     \<lparr> fs_file = (\<lambda>p. if p = ex_file then Some (File 0 True (map of_char text)) else None),
       fs_readdir = (\<lambda>d. if d = ex_dir then Some [js ''s1.jsonl''] else None),
       now = 1000000, sessionMaxAgeSecs = 180, homedir = js ''/home/u'',
       workspaceFolder = Some (js ''/w'') \<rparr>"

text \<open>
  The view is resolved, terminal 0 is launched with the session \<open>s1\<close>, and its first scan
  tick finds the transcript, still empty.
\<close>

definition ex_open :: "event list" where
  "ex_open = [ResolveWebviewView, StartScan (ex_env []) 0 (Some (js ''s1'')) None, Fire (ex_env []) 0]"

definition ex_agent :: AgentState where
  "ex_agent = \<lparr> agent_id = 1, terminalRef = 0, projectDir = ex_dir, jsonlFile = ex_file,
                fileOffset = 0, lineBuffer = [], activeToolIds = {}, activeToolStatuses = [],
                isWaiting = False \<rparr>"

definition ex_base :: provider where
  "ex_base = \<lparr> nextAgentId = 2, agents = [(1, ex_agent)], claimedFiles = {ex_file},
               webviewView = True, fileWatchers = [1 \<mapsto> ex_file],
               pollingTimers = [1 \<mapsto> 1], waitingTimers = Map.empty,
               terminalProjectDirs = [0 \<mapsto> ex_dir], terminalScanTimers = [0 \<mapsto> 0],
               timers = [0 \<mapsto> Interval 1000 (ScanTick 0 (Some (js ''s1''))),
                         1 \<mapsto> Interval 2000 (PollTick 1)],
               nextTimer = 2, posted = [AgentCreated 1] \<rparr>"

text \<open>The interpreter leaves the reader's two fields of every agent alone.\<close>

definition unread :: "provider \<Rightarrow> provider \<Rightarrow> bool" where
  "unread s s' \<longleftrightarrow>
     list_all2 (\<lambda>p q. fst p = fst q \<and> fileOffset (snd q) = fileOffset (snd p) \<and>
                  lineBuffer (snd q) = lineBuffer (snd p) \<and> jsonlFile (snd q) = jsonlFile (snd p))
       (agents s) (agents s')"

text \<open>
  The handles of the live timers whose callback is the waiting debounce of agent \<open>k\<close>.
  Every handle ever given out is below \<open>nextTimer\<close>.
\<close>

definition pendingWaiting :: "provider \<Rightarrow> nat \<Rightarrow> nat list" where
  "pendingWaiting s k =
     filter (\<lambda>h. case timers s h of None \<Rightarrow> False | Some t \<Rightarrow> timer_cb t = WaitingFire k)
       [0..<nextTimer s]"

text \<open>
  The ids of the tool-result blocks that the loop of lines 411 to 425 acts on, in its
  order: those of type \<open>tool_result\<close> with a truthy \<open>tool_use_id\<close>, up to the first \<open>null\<close>.
\<close>

fun resultIds :: "block option list \<Rightarrow> jsstring list" where
  "resultIds [] = []"
| "resultIds (None # bs) = []"
| "resultIds (Some b # bs) =
     (case b_tool_use_id b of
        None \<Rightarrow> resultIds bs
      | Some toolId \<Rightarrow>
          if b_type b = js ''tool_result'' \<and> toolId \<noteq> [] then toolId # resultIds bs
          else resultIds bs)"

text \<open>A message \<open>agentToolStart\<close> of agent \<open>k\<close>.\<close>

definition isToolStart :: "nat \<Rightarrow> message \<Rightarrow> bool" where
  "isToolStart k m = (case m of AgentToolStart j tid st \<Rightarrow> j = k | _ \<Rightarrow> False)"

section \<open>Frame and invariant lemmas\<close>

lemma post_fields [simp]:
  "nextAgentId (post m s) = nextAgentId s" "agents (post m s) = agents s"
  "claimedFiles (post m s) = claimedFiles s" "webviewView (post m s) = webviewView s"
  "fileWatchers (post m s) = fileWatchers s" "pollingTimers (post m s) = pollingTimers s"
  "waitingTimers (post m s) = waitingTimers s"
  "terminalProjectDirs (post m s) = terminalProjectDirs s"
  "terminalScanTimers (post m s) = terminalScanTimers s" "timers (post m s) = timers s"
  "nextTimer (post m s) = nextTimer s"
  "posted (post m s) = (if webviewView s then posted s @ [m] else posted s)"
  by (simp_all add: post_def)

lemma modify_fields [simp]:
  "nextAgentId (modify k f s) = nextAgentId s"
  "agents (modify k f s) = AList.map_entry k f (agents s)"
  "claimedFiles (modify k f s) = claimedFiles s" "webviewView (modify k f s) = webviewView s"
  "fileWatchers (modify k f s) = fileWatchers s" "pollingTimers (modify k f s) = pollingTimers s"
  "waitingTimers (modify k f s) = waitingTimers s"
  "terminalProjectDirs (modify k f s) = terminalProjectDirs s"
  "terminalScanTimers (modify k f s) = terminalScanTimers s" "timers (modify k f s) = timers s"
  "nextTimer (modify k f s) = nextTimer s" "posted (modify k f s) = posted s"
  by (simp_all add: modify_def)

lemma addTimer_fields [simp]:
  "nextAgentId (addTimer t s) = nextAgentId s" "agents (addTimer t s) = agents s"
  "claimedFiles (addTimer t s) = claimedFiles s" "webviewView (addTimer t s) = webviewView s"
  "fileWatchers (addTimer t s) = fileWatchers s" "pollingTimers (addTimer t s) = pollingTimers s"
  "waitingTimers (addTimer t s) = waitingTimers s"
  "terminalProjectDirs (addTimer t s) = terminalProjectDirs s"
  "terminalScanTimers (addTimer t s) = terminalScanTimers s"
  "timers (addTimer t s) = (timers s)(nextTimer s \<mapsto> t)"
  "nextTimer (addTimer t s) = Suc (nextTimer s)" "posted (addTimer t s) = posted s"
  by (simp_all add: addTimer_def)

lemma clearTimer_fields [simp]:
  "nextAgentId (clearTimer h s) = nextAgentId s" "agents (clearTimer h s) = agents s"
  "claimedFiles (clearTimer h s) = claimedFiles s" "webviewView (clearTimer h s) = webviewView s"
  "fileWatchers (clearTimer h s) = fileWatchers s" "pollingTimers (clearTimer h s) = pollingTimers s"
  "waitingTimers (clearTimer h s) = waitingTimers s"
  "terminalProjectDirs (clearTimer h s) = terminalProjectDirs s"
  "terminalScanTimers (clearTimer h s) = terminalScanTimers s"
  "timers (clearTimer h s) = (timers s)(h := None)"
  "nextTimer (clearTimer h s) = nextTimer s" "posted (clearTimer h s) = posted s"
  by (simp_all add: clearTimer_def)

lemma cancelWaitingTimer_fields [simp]:
  "nextAgentId (cancelWaitingTimer a s) = nextAgentId s" "agents (cancelWaitingTimer a s) = agents s"
  "claimedFiles (cancelWaitingTimer a s) = claimedFiles s"
  "webviewView (cancelWaitingTimer a s) = webviewView s"
  "fileWatchers (cancelWaitingTimer a s) = fileWatchers s"
  "pollingTimers (cancelWaitingTimer a s) = pollingTimers s"
  "waitingTimers (cancelWaitingTimer a s) = (waitingTimers s)(a := None)"
  "terminalProjectDirs (cancelWaitingTimer a s) = terminalProjectDirs s"
  "terminalScanTimers (cancelWaitingTimer a s) = terminalScanTimers s"
  "timers (cancelWaitingTimer a s) =
     (case waitingTimers s a of None \<Rightarrow> timers s | Some h \<Rightarrow> (timers s)(h := None))"
  "nextTimer (cancelWaitingTimer a s) = nextTimer s" "posted (cancelWaitingTimer a s) = posted s"
  by (auto simp: cancelWaitingTimer_def split: option.splits)

lemma evolves_refl [simp]: "evolves a a"
  by (simp add: evolves_def)

lemma evolves_trans: "evolves a b \<Longrightarrow> evolves b c \<Longrightarrow> evolves a c"
  by (auto simp: evolves_def)

lemma steady_refl [simp]: "steady s s"
  by (simp add: steady_def list_all2_same)

lemma steady_trans: "steady s t \<Longrightarrow> steady t u \<Longrightarrow> steady s u"
  unfolding steady_def
  apply (elim conjE exE)
  apply (intro conjI)
           apply (erule (1) list_all2_trans[rotated])
  apply (auto intro: evolves_trans)
  done

lemma steady_post [simp]: "steady s (post m s)"
  by (simp add: steady_def list_all2_same)

lemma steady_addTimer [simp]: "steady s (addTimer t s)"
  by (simp add: steady_def list_all2_same)

lemma steady_clearTimer [simp]: "steady s (clearTimer h s)"
  by (simp add: steady_def list_all2_same)

lemma steady_cancelWaitingTimer [simp]: "steady s (cancelWaitingTimer a s)"
  by (simp add: steady_def list_all2_same)

lemma keys_delete: "fst ` set (AList.delete k al) = fst ` set al - {k}"
  by (auto simp: AList.delete_eq)

lemma map_entry_evolves:
  "(\<And>a. map_of xs k = Some a \<Longrightarrow> evolves a (f a)) \<Longrightarrow>
   list_all2 (\<lambda>p q. fst p = fst q \<and> evolves (snd p) (snd q)) xs (AList.map_entry k f xs)"
  by (induction xs) (auto simp: list_all2_same)

lemma steady_modify:
  "(\<And>a. map_of (agents s) k = Some a \<Longrightarrow> evolves a (f a)) \<Longrightarrow> steady s (modify k f s)"
  by (simp add: steady_def map_entry_evolves)

lemma steady_fold: "(\<And>x t. steady t (f x t)) \<Longrightarrow> steady s (fold f xs s)"
proof (induction xs arbitrary: s)
  case Nil
  show ?case by simp
next
  case (Cons x xs)
  have "steady s (f x s)" by (rule Cons.prems)
  moreover have "steady (f x s) (fold f xs (f x s))" by (rule Cons.IH) (rule Cons.prems)
  ultimately show ?case by (auto intro: steady_trans)
qed

text \<open>
  The two loops of the interpreter, for a relation between states that every turn
  keeps, and for a property of states that every turn keeps.
\<close>

lemma toolStartLoop_rel:
  assumes refl: "\<And>t. R t t" and trans: "\<And>t u v. R t u \<Longrightarrow> R u v \<Longrightarrow> R t v"
    and turn: "\<And>j b t t'. toolStart j b t = Inr t' \<Longrightarrow> R t t'"
  shows "R s (toolStartLoop k bs s)"
proof (induction k bs s rule: toolStartLoop.induct)
  case (3 agentId b bs s)
  show ?case
  proof (cases "toolStart agentId b s")
    case (Inl err)
    then show ?thesis by (simp add: refl)
  next
    case (Inr s')
    have "R s s'" by (rule turn [OF Inr])
    moreover have "R s' (toolStartLoop agentId bs s')" by (rule "3.IH" [OF Inr])
    ultimately show ?thesis using Inr by (simp add: trans [of s s'])
  qed
qed (simp_all add: refl)

lemma toolStartLoop_inv:
  assumes turn: "\<And>j b t t'. P t \<Longrightarrow> toolStart j b t = Inr t' \<Longrightarrow> P t'"
  shows "P s \<Longrightarrow> P (toolStartLoop k bs s)"
proof (induction k bs s rule: toolStartLoop.induct)
  case (3 agentId b bs s)
  show ?case
  proof (cases "toolStart agentId b s")
    case (Inl err)
    then show ?thesis using "3.prems" by simp
  next
    case (Inr s')
    have "P s'" by (rule turn [OF "3.prems" Inr])
    then have "P (toolStartLoop agentId bs s')" by (rule "3.IH" [OF Inr])
    then show ?thesis using Inr by simp
  qed
qed simp_all

lemma toolResultLoop_rel:
  assumes refl: "\<And>t. R t t" and trans: "\<And>t u v. R t u \<Longrightarrow> R u v \<Longrightarrow> R t v"
    and turn: "\<And>j b t. R t (toolResult j b t)"
  shows "R s (toolResultLoop k bs s)"
proof (induction k bs s rule: toolResultLoop.induct)
  case (3 agentId b bs s)
  have "R s (toolResult agentId b s)" by (rule turn)
  from trans [OF this "3.IH"] show ?case by simp
qed (simp_all add: refl)

lemma toolResultLoop_inv:
  assumes turn: "\<And>j b t. P t \<Longrightarrow> P (toolResult j b t)"
  shows "P s \<Longrightarrow> P (toolResultLoop k bs s)"
proof (induction k bs s rule: toolResultLoop.induct)
  case (3 agentId b bs s)
  have "P (toolResult agentId b s)" by (rule turn [OF "3.prems"])
  then show ?case using "3.IH" by simp
qed simp_all

lemma steady_toolStart: "toolStart k b s = Inr s' \<Longrightarrow> steady s s'"
proof -
  have "steady s (post m (modify k
           (\<lambda>a. a\<lparr>activeToolIds := insert tid (activeToolIds a),
                   activeToolStatuses := AList.update tid st (activeToolStatuses a)\<rparr>) s))"
    for m tid st
    by (rule steady_trans [OF steady_modify steady_post])
       (simp add: evolves_def lockstep_def dom_update)
  then show "toolStart k b s = Inr s' \<Longrightarrow> steady s s'"
    by (auto simp: toolStart_def split: option.splits if_splits sum.splits)
qed

lemma steady_toolStartLoop: "steady s (toolStartLoop k bs s)"
  by (rule toolStartLoop_rel [where R = steady]) (auto intro: steady_trans steady_toolStart)

lemma steady_toolResult: "steady s (toolResult k b s)"
proof -
  have "steady s (addTimer t (modify k
           (\<lambda>a. a\<lparr>activeToolIds := activeToolIds a - {tid},
                   activeToolStatuses := AList.delete tid (activeToolStatuses a)\<rparr>) s))"
    for t tid
    by (rule steady_trans [OF steady_modify steady_addTimer])
       (simp add: evolves_def lockstep_def keys_delete)
  then show ?thesis
    by (simp add: toolResult_def split: option.splits)
qed

lemma steady_toolResultLoop: "steady s (toolResultLoop k bs s)"
  by (rule toolResultLoop_rel [where R = steady]) (auto intro: steady_trans steady_toolResult)

lemma steady_setWaiting: "steady s (modify k (\<lambda>a. a\<lparr>isWaiting := w\<rparr>) s)"
  by (rule steady_modify) (simp add: evolves_def lockstep_def)

lemma steady_clearAgentActivity: "steady s (clearAgentActivity k s)"
proof -
  have "steady s (modify k
          (\<lambda>a. a\<lparr>activeToolIds := {}, activeToolStatuses := [], isWaiting := False\<rparr>) s)"
    by (rule steady_modify) (simp add: evolves_def lockstep_def)
  then show ?thesis
    by (auto simp: clearAgentActivity_def split: option.splits
             intro: steady_trans [OF _ steady_post])
qed

lemma steady_startWaitingTimer: "steady s (startWaitingTimer k d s)"
  by (simp add: startWaitingTimer_def Let_def steady_def list_all2_same)

lemma steady_waitingTimerFired: "steady s (waitingTimerFired k s)"
proof -
  have "steady s (s\<lparr>waitingTimers := w\<rparr>)" for w
    by (simp add: steady_def list_all2_same)
  then show ?thesis
    by (auto simp: waitingTimerFired_def Let_def split: option.splits
             intro: steady_trans [OF _ steady_post] steady_trans [OF _ steady_setWaiting])
qed

lemma steady_openTools:
  "steady s (toolStartLoop k bs
     (post m (modify k (\<lambda>a. a\<lparr>isWaiting := w\<rparr>) (cancelWaitingTimer k s))))"
  by (rule steady_trans [OF steady_cancelWaitingTimer
        steady_trans [OF steady_setWaiting steady_trans [OF steady_post steady_toolStartLoop]]])

lemma steady_setsWaiting:
  "steady s (post m (modify k (\<lambda>a. a\<lparr>isWaiting := w\<rparr>) (cancelWaitingTimer k s)))"
  by (rule steady_trans [OF steady_cancelWaitingTimer steady_trans [OF steady_setWaiting steady_post]])

lemma steady_newTurn: "steady s (clearAgentActivity k (cancelWaitingTimer k s))"
  by (rule steady_trans [OF steady_cancelWaitingTimer steady_clearAgentActivity])

lemma steady_interpretRecord: "steady s (interpretRecord k r s)"
  unfolding interpretRecord_def
  by (simp add: steady_openTools steady_setsWaiting steady_newTurn steady_startWaitingTimer
        steady_toolResultLoop split: content.splits sum.splits)

lemma steady_processTranscriptLine: "steady s (processTranscriptLine parse k line s)"
  by (simp add: processTranscriptLine_def steady_interpretRecord split: option.splits)

lemma steady_readNewLines: "steady s (readNewLines parse e k s)"
proof -
  have off: "steady s (modify k (\<lambda>a. a\<lparr>fileOffset := n\<rparr>) s)"
    if "map_of (agents s) k = Some a" and "fileOffset a \<le> n" for n a
  proof (rule steady_modify)
    show "evolves a' (a'\<lparr>fileOffset := n\<rparr>)" if "map_of (agents s) k = Some a'" for a'
      using that \<open>map_of (agents s) k = Some a\<close> \<open>fileOffset a \<le> n\<close>
      by (simp add: evolves_def lockstep_def)
  qed
  have buf: "steady t (modify k (\<lambda>a. a\<lparr>lineBuffer := l\<rparr>) t)" for t l
    by (rule steady_modify) (simp add: evolves_def lockstep_def)
  have pump: "steady s (fold (\<lambda>line st. if blank line then st
                                         else processTranscriptLine parse k line st) ls
                   (modify k (\<lambda>a. a\<lparr>lineBuffer := l\<rparr>) (modify k (\<lambda>a. a\<lparr>fileOffset := n\<rparr>) s)))"
    if "map_of (agents s) k = Some a" and "fileOffset a \<le> n" for n l ls a
  proof (rule steady_trans [OF off [OF that] steady_trans [OF buf steady_fold]])
    show "steady t (if blank x then t else processTranscriptLine parse k x t)" for x t
      by (simp add: steady_processTranscriptLine)
  qed
  show ?thesis
    by (auto simp: readNewLines_def Let_def split: option.splits intro!: pump off)
qed

lemma tinvI:
  assumes "\<And>h t. timers s h = Some t \<Longrightarrow> h < nextTimer s"
    and "\<And>a h. waitingTimers s a = Some h \<Longrightarrow> timers s h = Some (Timeout 2000 (WaitingFire a))"
    and "\<And>h t a. timers s h = Some t \<Longrightarrow> timer_cb t = WaitingFire a \<Longrightarrow> waitingTimers s a = Some h"
    and "\<And>a h. pollingTimers s a = Some h \<Longrightarrow> h < nextTimer s"
    and "\<And>a h t b. pollingTimers s a = Some h \<Longrightarrow> timers s h = Some t \<Longrightarrow> timer_cb t \<noteq> WaitingFire b"
    and "\<And>x h. terminalScanTimers s x = Some h \<Longrightarrow> h < nextTimer s"
    and "\<And>x h t b. terminalScanTimers s x = Some h \<Longrightarrow> timers s h = Some t \<Longrightarrow> timer_cb t \<noteq> WaitingFire b"
  shows "tinv s"
  unfolding tinv_def using assms by blast

lemma tinv_fresh: "tinv s \<Longrightarrow> timers s h = Some t \<Longrightarrow> h < nextTimer s"
  unfolding tinv_def by blast

lemma tinv_fresh': "tinv s \<Longrightarrow> timers s (nextTimer s) = None"
  unfolding tinv_def by (metis less_irrefl)

lemma tinv_W1: "tinv s \<Longrightarrow> waitingTimers s a = Some h \<Longrightarrow> timers s h = Some (Timeout 2000 (WaitingFire a))"
  unfolding tinv_def by blast

lemma tinv_W2: "tinv s \<Longrightarrow> timers s h = Some t \<Longrightarrow> timer_cb t = WaitingFire a \<Longrightarrow> waitingTimers s a = Some h"
  unfolding tinv_def by blast

lemma tinv_P: "tinv s \<Longrightarrow> pollingTimers s a = Some h \<Longrightarrow> h < nextTimer s"
  unfolding tinv_def by blast

lemma tinv_P': "tinv s \<Longrightarrow> pollingTimers s a = Some h \<Longrightarrow> timers s h = Some t \<Longrightarrow> timer_cb t \<noteq> WaitingFire b"
  unfolding tinv_def by blast

lemma tinv_S: "tinv s \<Longrightarrow> terminalScanTimers s x = Some h \<Longrightarrow> h < nextTimer s"
  unfolding tinv_def by blast

lemma tinv_S': "tinv s \<Longrightarrow> terminalScanTimers s x = Some h \<Longrightarrow> timers s h = Some t \<Longrightarrow> timer_cb t \<noteq> WaitingFire b"
  unfolding tinv_def by blast

lemma tinv_post [simp]: "tinv (post m s) = tinv s"
  by (simp add: tinv_def)

lemma tinv_modify [simp]: "tinv (modify k f s) = tinv s"
  by (simp add: tinv_def)

text \<open>A new timer that is no waiting timer.\<close>

lemma tinv_addTimer:
  assumes inv: "tinv s" and nw: "\<And>a. timer_cb t \<noteq> WaitingFire a"
  shows "tinv (addTimer t s)"
proof (rule tinvI)
  fix h u assume "timers (addTimer t s) h = Some u"
  then show "h < nextTimer (addTimer t s)"
    using tinv_fresh [OF inv, of h] by (auto simp: less_Suc_eq split: if_splits)
next
  fix a h assume "waitingTimers (addTimer t s) a = Some h"
  then show "timers (addTimer t s) h = Some (Timeout 2000 (WaitingFire a))"
    using tinv_W1 [OF inv, of a h] tinv_fresh' [OF inv] by auto
next
  fix h u a assume "timers (addTimer t s) h = Some u" "timer_cb u = WaitingFire a"
  then show "waitingTimers (addTimer t s) a = Some h"
    using tinv_W2 [OF inv, of h u a] nw by (auto split: if_splits)
next
  fix a h assume "pollingTimers (addTimer t s) a = Some h"
  then show "h < nextTimer (addTimer t s)"
    using tinv_P [OF inv, of a h] by simp
next
  fix a h u b assume "pollingTimers (addTimer t s) a = Some h" "timers (addTimer t s) h = Some u"
  then show "timer_cb u \<noteq> WaitingFire b"
    using tinv_P' [OF inv, of a h u b] nw by (auto split: if_splits)
next
  fix x h assume "terminalScanTimers (addTimer t s) x = Some h"
  then show "h < nextTimer (addTimer t s)"
    using tinv_S [OF inv, of x h] by simp
next
  fix x h u b assume "terminalScanTimers (addTimer t s) x = Some h" "timers (addTimer t s) h = Some u"
  then show "timer_cb u \<noteq> WaitingFire b"
    using tinv_S' [OF inv, of x h u b] nw by (auto split: if_splits)
qed

lemma tinv_cong:
  "timers s' = timers s \<Longrightarrow> nextTimer s' = nextTimer s \<Longrightarrow> waitingTimers s' = waitingTimers s \<Longrightarrow>
   pollingTimers s' = pollingTimers s \<Longrightarrow> terminalScanTimers s' = terminalScanTimers s \<Longrightarrow>
   tinv s' = tinv s"
  by (simp add: tinv_def)

text \<open>The handle \<open>h\<close> leaves the table, and no registry names it afterwards.\<close>

lemma tinv_drop:
  assumes inv: "tinv s"
    and T: "timers s' = (timers s)(h := None)" and N: "nextTimer s' = nextTimer s"
    and Wa: "\<And>a h'. waitingTimers s' a = Some h' \<Longrightarrow> waitingTimers s a = Some h' \<and> h' \<noteq> h"
    and Wb: "\<And>a h'. waitingTimers s a = Some h' \<Longrightarrow> h' \<noteq> h \<Longrightarrow> waitingTimers s' a = Some h'"
    and P: "\<And>a h'. pollingTimers s' a = Some h' \<Longrightarrow> pollingTimers s a = Some h'"
    and S: "\<And>x h'. terminalScanTimers s' x = Some h' \<Longrightarrow> terminalScanTimers s x = Some h'"
  shows "tinv s'"
proof (rule tinvI)
  fix h' t assume "timers s' h' = Some t"
  then show "h' < nextTimer s'"
    using tinv_fresh [OF inv, of h' t] by (auto simp: T N split: if_splits)
next
  fix a h' assume "waitingTimers s' a = Some h'"
  then show "timers s' h' = Some (Timeout 2000 (WaitingFire a))"
    using Wa [of a h'] tinv_W1 [OF inv, of a h'] by (simp add: T)
next
  fix h' t a assume "timers s' h' = Some t" "timer_cb t = WaitingFire a"
  then show "waitingTimers s' a = Some h'"
    using tinv_W2 [OF inv, of h' t a] Wb [of a h'] by (auto simp: T split: if_splits)
next
  fix a h' assume "pollingTimers s' a = Some h'"
  then show "h' < nextTimer s'"
    using P [of a h'] tinv_P [OF inv, of a h'] by (simp add: N)
next
  fix a h' t b assume "pollingTimers s' a = Some h'" "timers s' h' = Some t"
  then show "timer_cb t \<noteq> WaitingFire b"
    using P [of a h'] tinv_P' [OF inv, of a h' t b] by (auto simp: T split: if_splits)
next
  fix x h' assume "terminalScanTimers s' x = Some h'"
  then show "h' < nextTimer s'"
    using S [of x h'] tinv_S [OF inv, of x h'] by (simp add: N)
next
  fix x h' t b assume "terminalScanTimers s' x = Some h'" "timers s' h' = Some t"
  then show "timer_cb t \<noteq> WaitingFire b"
    using S [of x h'] tinv_S' [OF inv, of x h' t b] by (auto simp: T split: if_splits)
qed

text \<open>Entries leave the registries of the polls and the scans; the table stays.\<close>

lemma tinv_shrink:
  assumes inv: "tinv s"
    and T: "timers s' = timers s" and N: "nextTimer s' = nextTimer s"
    and W: "waitingTimers s' = waitingTimers s"
    and P: "\<And>a h'. pollingTimers s' a = Some h' \<Longrightarrow> pollingTimers s a = Some h'"
    and S: "\<And>x h'. terminalScanTimers s' x = Some h' \<Longrightarrow> terminalScanTimers s x = Some h'"
  shows "tinv s'"
proof (rule tinv_drop [OF inv, where h = "nextTimer s"])
  show "timers s' = (timers s)(nextTimer s := None)"
    using tinv_fresh' [OF inv] by (auto simp: T fun_upd_idem_iff)
  show "waitingTimers s' a = Some h' \<Longrightarrow> waitingTimers s a = Some h' \<and> h' \<noteq> nextTimer s" for a h'
    using tinv_W1 [OF inv, of a h'] tinv_fresh' [OF inv] by (auto simp: W)
qed (simp_all add: N W P S)

text \<open>A registry of polls or scans takes a handle that is below the next one and no waiting timer.\<close>

lemma tinv_setPolling:
  assumes inv: "tinv s" and h: "h < nextTimer s"
    and nw: "\<And>t b. timers s h = Some t \<Longrightarrow> timer_cb t \<noteq> WaitingFire b"
  shows "tinv (s\<lparr>pollingTimers := (pollingTimers s)(a \<mapsto> h)\<rparr>)"
proof (rule tinvI)
  fix a' h' assume "pollingTimers (s\<lparr>pollingTimers := (pollingTimers s)(a \<mapsto> h)\<rparr>) a' = Some h'"
  then show "h' < nextTimer (s\<lparr>pollingTimers := (pollingTimers s)(a \<mapsto> h)\<rparr>)"
    using tinv_P [OF inv, of a' h'] h by (auto split: if_splits)
next
  fix a' h' t b
  assume "pollingTimers (s\<lparr>pollingTimers := (pollingTimers s)(a \<mapsto> h)\<rparr>) a' = Some h'"
    "timers (s\<lparr>pollingTimers := (pollingTimers s)(a \<mapsto> h)\<rparr>) h' = Some t"
  then show "timer_cb t \<noteq> WaitingFire b"
    using tinv_P' [OF inv, of a' h' t b] nw [of t b] by (auto split: if_splits)
qed (use inv in \<open>auto dest: tinv_fresh tinv_W1 tinv_W2 tinv_S tinv_S'\<close>)

lemma tinv_setScan:
  assumes inv: "tinv s" and h: "h < nextTimer s"
    and nw: "\<And>t b. timers s h = Some t \<Longrightarrow> timer_cb t \<noteq> WaitingFire b"
  shows "tinv (s\<lparr>terminalScanTimers := (terminalScanTimers s)(x \<mapsto> h)\<rparr>)"
proof (rule tinvI)
  fix x' h' assume "terminalScanTimers (s\<lparr>terminalScanTimers := (terminalScanTimers s)(x \<mapsto> h)\<rparr>) x' = Some h'"
  then show "h' < nextTimer (s\<lparr>terminalScanTimers := (terminalScanTimers s)(x \<mapsto> h)\<rparr>)"
    using tinv_S [OF inv, of x' h'] h by (auto split: if_splits)
next
  fix x' h' t b
  assume "terminalScanTimers (s\<lparr>terminalScanTimers := (terminalScanTimers s)(x \<mapsto> h)\<rparr>) x' = Some h'"
    "timers (s\<lparr>terminalScanTimers := (terminalScanTimers s)(x \<mapsto> h)\<rparr>) h' = Some t"
  then show "timer_cb t \<noteq> WaitingFire b"
    using tinv_S' [OF inv, of x' h' t b] nw [of t b] by (auto split: if_splits)
qed (use inv in \<open>auto dest: tinv_fresh tinv_W1 tinv_W2 tinv_P tinv_P'\<close>)

lemma tinv_cancelWaitingTimer: "tinv s \<Longrightarrow> tinv (cancelWaitingTimer a s)"
proof (cases "waitingTimers s a")
  case None
  then show "tinv s \<Longrightarrow> tinv (cancelWaitingTimer a s)"
    by (simp add: cancelWaitingTimer_def)
next
  case (Some h)
  assume inv: "tinv s"
  show "tinv (cancelWaitingTimer a s)"
  proof (rule tinv_drop [OF inv, where h = h])
    show "waitingTimers (cancelWaitingTimer a s) b = Some h' \<Longrightarrow> waitingTimers s b = Some h' \<and> h' \<noteq> h"
      for b h'
      using tinv_W1 [OF inv, of b h'] tinv_W1 [OF inv, of a h] Some by (auto split: if_splits)
    show "waitingTimers s b = Some h' \<Longrightarrow> h' \<noteq> h \<Longrightarrow> waitingTimers (cancelWaitingTimer a s) b = Some h'"
      for b h'
      using Some by auto
  qed (simp_all add: Some)
qed

lemma waitingTimers_cancel [simp]: "waitingTimers (cancelWaitingTimer a s) a = None"
  by simp

lemma tinv_startWaitingTimer:
  assumes inv: "tinv s"
  shows "tinv (startWaitingTimer a 2000 s)"
proof -
  define s1 where "s1 = cancelWaitingTimer a s"
  have inv1: "tinv s1" and none: "waitingTimers s1 a = None"
    by (simp_all add: s1_def tinv_cancelWaitingTimer inv)
  define s' where "s' = (addTimer (Timeout 2000 (WaitingFire a)) s1)
                          \<lparr>waitingTimers := (waitingTimers s1)(a \<mapsto> nextTimer s1)\<rparr>"
  have "tinv s'"
  proof (rule tinvI)
    fix h t assume "timers s' h = Some t"
    then show "h < nextTimer s'"
      using tinv_fresh [OF inv1, of h t] by (auto simp: s'_def less_Suc_eq split: if_splits)
  next
    fix b h assume "waitingTimers s' b = Some h"
    then show "timers s' h = Some (Timeout 2000 (WaitingFire b))"
      using tinv_W1 [OF inv1, of b h] tinv_fresh' [OF inv1] by (auto simp: s'_def split: if_splits)
  next
    fix h t b assume "timers s' h = Some t" "timer_cb t = WaitingFire b"
    then show "waitingTimers s' b = Some h"
      using tinv_W2 [OF inv1, of h t b] none by (auto simp: s'_def split: if_splits)
  next
    fix b h assume "pollingTimers s' b = Some h"
    then show "h < nextTimer s'"
      using tinv_P [OF inv1, of b h] by (simp add: s'_def)
  next
    fix b h t c assume "pollingTimers s' b = Some h" "timers s' h = Some t"
    then show "timer_cb t \<noteq> WaitingFire c"
      using tinv_P' [OF inv1, of b h t c] tinv_P [OF inv1, of b h]
      by (auto simp: s'_def split: if_splits)
  next
    fix x h assume "terminalScanTimers s' x = Some h"
    then show "h < nextTimer s'"
      using tinv_S [OF inv1, of x h] by (simp add: s'_def)
  next
    fix x h t c assume "terminalScanTimers s' x = Some h" "timers s' h = Some t"
    then show "timer_cb t \<noteq> WaitingFire c"
      using tinv_S' [OF inv1, of x h t c] tinv_S [OF inv1, of x h]
      by (auto simp: s'_def split: if_splits)
  qed
  moreover have "startWaitingTimer a 2000 s = s'"
    by (simp add: startWaitingTimer_def Let_def s'_def s1_def)
  ultimately show ?thesis by simp
qed

lemma fold_inv: "(\<And>x t. P t \<Longrightarrow> P (f x t)) \<Longrightarrow> P s \<Longrightarrow> P (fold f xs s)"
  by (induction xs arbitrary: s) auto

lemma steady_map_fst: "steady s s' \<Longrightarrow> map fst (agents s') = map fst (agents s)"
proof -
  assume "steady s s'"
  then have "list_all2 (\<lambda>p q. fst p = fst q) (agents s) (agents s')"
    by (auto simp: steady_def elim: list_all2_mono)
  then show ?thesis
    by (induction rule: list_all2_induct) auto
qed

lemma steady_paths: "steady s s' \<Longrightarrow> paths s' = paths s"
proof -
  assume "steady s s'"
  then have "list_all2 (\<lambda>p q. jsonlFile (snd q) = jsonlFile (snd p)) (agents s) (agents s')"
    by (auto simp: steady_def evolves_def elim: list_all2_mono)
  then show ?thesis
    unfolding paths_def by (induction rule: list_all2_induct) auto
qed

lemma steady_keys: "steady s s' \<Longrightarrow> keys s' = keys s"
  using steady_map_fst [of s s'] by (metis keys_def set_map)

lemma steady_lockstep:
  "steady s s' \<Longrightarrow> list_all (\<lambda>p. lockstep (snd p)) (agents s) \<Longrightarrow>
   list_all (\<lambda>p. lockstep (snd p)) (agents s')"
proof -
  assume "steady s s'"
  then have "list_all2 (\<lambda>p q. lockstep (snd p) \<longrightarrow> lockstep (snd q)) (agents s) (agents s')"
    by (auto simp: steady_def evolves_def elim: list_all2_mono)
  then show "list_all (\<lambda>p. lockstep (snd p)) (agents s) \<Longrightarrow>
    list_all (\<lambda>p. lockstep (snd p)) (agents s')"
    by (induction rule: list_all2_induct) auto
qed

lemma steady_map_of:
  "steady s s' \<Longrightarrow> map_of (agents s) k = Some a \<Longrightarrow>
   \<exists>a'. map_of (agents s') k = Some a' \<and> evolves a a'"
proof -
  assume "steady s s'"
  then have "list_all2 (\<lambda>p q. fst p = fst q \<and> evolves (snd p) (snd q)) (agents s) (agents s')"
    by (simp add: steady_def)
  then show "map_of (agents s) k = Some a \<Longrightarrow> \<exists>a'. map_of (agents s') k = Some a' \<and> evolves a a'"
    by (induction rule: list_all2_induct) (auto split: if_splits)
qed

lemma steady_map_of_None:
  "steady s s' \<Longrightarrow> map_of (agents s) k = None \<Longrightarrow> map_of (agents s') k = None"
  using steady_keys [of s s'] by (simp add: map_of_eq_None_iff keys_def)

lemma ainv_steady: "steady s s' \<Longrightarrow> ainv s \<Longrightarrow> ainv s'"
  unfolding ainv_def
  by (simp add: steady_map_fst steady_paths steady_keys steady_lockstep) (simp add: steady_def)

lemma tinv_toolStart: "toolStart k b s = Inr s' \<Longrightarrow> tinv s' = tinv s"
  by (auto simp: toolStart_def split: option.splits if_splits sum.splits)

lemma tinv_toolStartLoop: "tinv s \<Longrightarrow> tinv (toolStartLoop k bs s)"
  by (rule toolStartLoop_inv [where P = tinv]) (simp_all add: tinv_toolStart)

lemma tinv_toolResult: "tinv s \<Longrightarrow> tinv (toolResult k b s)"
  by (simp add: toolResult_def tinv_addTimer split: option.splits)

lemma tinv_toolResultLoop: "tinv s \<Longrightarrow> tinv (toolResultLoop k bs s)"
  by (rule toolResultLoop_inv [where P = tinv]) (simp_all add: tinv_toolResult)

lemma tinv_clearAgentActivity: "tinv (clearAgentActivity k s) = tinv s"
  by (simp add: clearAgentActivity_def split: option.splits)

lemma tinv_interpretRecord: "tinv s \<Longrightarrow> tinv (interpretRecord k r s)"
  unfolding interpretRecord_def
  by (simp add: tinv_clearAgentActivity tinv_cancelWaitingTimer tinv_startWaitingTimer
        tinv_toolStartLoop tinv_toolResultLoop split: content.splits sum.splits)

lemma tinv_processTranscriptLine: "tinv s \<Longrightarrow> tinv (processTranscriptLine parse k line s)"
  by (simp add: processTranscriptLine_def tinv_interpretRecord split: option.splits)

lemma tinv_readNewLines: "tinv s \<Longrightarrow> tinv (readNewLines parse e k s)"
  by (auto simp: readNewLines_def Let_def tinv_processTranscriptLine split: option.splits
           intro!: fold_inv [where P = tinv])

lemma ainv_key_less: "ainv s \<Longrightarrow> map_of (agents s) k = Some a \<Longrightarrow> k < nextAgentId s"
  by (auto simp: ainv_def keys_def dest!: map_of_SomeD intro: rev_image_eqI)

lemma ages_refl [simp]: "ages s s"
  by (auto simp: ages_def split: option.splits)

lemma agesI:
  assumes "ainv s \<Longrightarrow> ainv s'" and "ainv s \<Longrightarrow> nextAgentId s \<le> nextAgentId s'"
    and "\<And>k a a'. ainv s \<Longrightarrow> map_of (agents s') k = Some a' \<Longrightarrow> map_of (agents s) k = Some a \<Longrightarrow>
           evolves a a'"
    and "\<And>k a'. ainv s \<Longrightarrow> map_of (agents s') k = Some a' \<Longrightarrow> map_of (agents s) k = None \<Longrightarrow>
           nextAgentId s \<le> k"
  shows "ages s s'"
  unfolding ages_def using assms by (auto split: option.splits)

lemma ages_ainv: "ages s s' \<Longrightarrow> ainv s \<Longrightarrow> ainv s'"
  by (simp add: ages_def)

lemma ages_nextAgentId: "ages s s' \<Longrightarrow> ainv s \<Longrightarrow> nextAgentId s \<le> nextAgentId s'"
  by (simp add: ages_def)

lemma ages_evolves:
  "ages s s' \<Longrightarrow> ainv s \<Longrightarrow> map_of (agents s') k = Some a' \<Longrightarrow> map_of (agents s) k = Some a \<Longrightarrow>
   evolves a a'"
  unfolding ages_def by (metis option.simps(5))

lemma ages_new:
  "ages s s' \<Longrightarrow> ainv s \<Longrightarrow> map_of (agents s') k = Some a' \<Longrightarrow> map_of (agents s) k = None \<Longrightarrow>
   nextAgentId s \<le> k"
  unfolding ages_def by (metis option.simps(4))

lemma ages_trans:
  assumes st: "ages s t" and tu: "ages t u"
  shows "ages s u"
proof (rule agesI)
  assume s: "ainv s"
  have t: "ainv t" by (rule ages_ainv [OF st s])
  show "ainv u" by (rule ages_ainv [OF tu t])
  show "nextAgentId s \<le> nextAgentId u"
    using ages_nextAgentId [OF st s] ages_nextAgentId [OF tu t] by simp
next
  fix k a c assume s: "ainv s" and c: "map_of (agents u) k = Some c"
    and a: "map_of (agents s) k = Some a"
  have t: "ainv t" by (rule ages_ainv [OF st s])
  show "evolves a c"
  proof (cases "map_of (agents t) k")
    case None
    have "nextAgentId t \<le> k" by (rule ages_new [OF tu t c None])
    then show ?thesis
      using ainv_key_less [OF s a] ages_nextAgentId [OF st s] by simp
  next
    case (Some b)
    show ?thesis
      by (rule evolves_trans [OF ages_evolves [OF st s Some a] ages_evolves [OF tu t c Some]])
  qed
next
  fix k c assume s: "ainv s" and c: "map_of (agents u) k = Some c"
    and a: "map_of (agents s) k = None"
  have t: "ainv t" by (rule ages_ainv [OF st s])
  show "nextAgentId s \<le> k"
  proof (cases "map_of (agents t) k")
    case None
    have "nextAgentId t \<le> k" by (rule ages_new [OF tu t c None])
    then show ?thesis
      using ages_nextAgentId [OF st s] by simp
  next
    case (Some b)
    show ?thesis by (rule ages_new [OF st s Some a])
  qed
qed

lemma ages_fold: "(\<And>x t. ages t (f x t)) \<Longrightarrow> ages s (fold f xs s)"
proof (induction xs arbitrary: s)
  case Nil
  show ?case by simp
next
  case (Cons x xs)
  have "ages s (f x s)" by (rule Cons.prems)
  moreover have "ages (f x s) (fold f xs (f x s))" by (rule Cons.IH) (rule Cons.prems)
  ultimately show ?case by (auto intro: ages_trans)
qed

lemma steady_map_of_rev:
  "steady s s' \<Longrightarrow> map_of (agents s') k = Some a' \<Longrightarrow>
   \<exists>a. map_of (agents s) k = Some a \<and> evolves a a'"
proof -
  assume "steady s s'"
  then have "list_all2 (\<lambda>p q. fst p = fst q \<and> evolves (snd p) (snd q)) (agents s) (agents s')"
    by (simp add: steady_def)
  then show "map_of (agents s') k = Some a' \<Longrightarrow> \<exists>a. map_of (agents s) k = Some a \<and> evolves a a'"
    by (induction rule: list_all2_induct) (auto split: if_splits)
qed

lemma steady_ages: "steady s s' \<Longrightarrow> ages s s'"
proof (rule agesI)
  assume st: "steady s s'"
  show "ainv s \<Longrightarrow> ainv s'" by (rule ainv_steady [OF st])
  show "nextAgentId s \<le> nextAgentId s'" using st by (simp add: steady_def)
  show "evolves a a'" if "map_of (agents s') k = Some a'" "map_of (agents s) k = Some a" for k a a'
    using steady_map_of_rev [OF st that(1)] that(2) by auto
  show "nextAgentId s \<le> k" if "map_of (agents s') k = Some a'" "map_of (agents s) k = None" for k a'
    using steady_map_of_rev [OF st that(1)] that(2) by auto
qed

lemma update_fresh: "k \<notin> fst ` set xs \<Longrightarrow> AList.update k v xs = xs @ [(k, v)]"
  by (induction xs) auto

lemma createAgentFromFile_created:
  "createAgentFromFile parse e terminal filePath projDir s =
     readNewLines parse e (nextAgentId s) (created e terminal filePath projDir s)"
  by (simp add: createAgentFromFile_def created_def Let_def)

lemma startFileWatching_fields [simp]:
  "nextAgentId (startFileWatching e k p s) = nextAgentId s"
  "agents (startFileWatching e k p s) = agents s"
  "claimedFiles (startFileWatching e k p s) = claimedFiles s"
  "webviewView (startFileWatching e k p s) = webviewView s"
  "waitingTimers (startFileWatching e k p s) = waitingTimers s"
  "terminalProjectDirs (startFileWatching e k p s) = terminalProjectDirs s"
  "terminalScanTimers (startFileWatching e k p s) = terminalScanTimers s"
  "timers (startFileWatching e k p s) = (timers s)(nextTimer s \<mapsto> Interval 2000 (PollTick k))"
  "nextTimer (startFileWatching e k p s) = Suc (nextTimer s)"
  "pollingTimers (startFileWatching e k p s) = (pollingTimers s)(k \<mapsto> nextTimer s)"
  "posted (startFileWatching e k p s) = posted s"
  by (simp_all add: startFileWatching_def Let_def split: option.splits)

lemma created_fields [simp]:
  "nextAgentId (created e t p d s) = Suc (nextAgentId s)"
  "agents (created e t p d s) = AList.update (nextAgentId s)
     \<lparr> agent_id = nextAgentId s, terminalRef = t, projectDir = d,
       jsonlFile = p, fileOffset = 0, lineBuffer = [],
       activeToolIds = {}, activeToolStatuses = [], isWaiting = False \<rparr> (agents s)"
  "claimedFiles (created e t p d s) = insert p (claimedFiles s)"
  "webviewView (created e t p d s) = webviewView s"
  "waitingTimers (created e t p d s) = waitingTimers s"
  "terminalProjectDirs (created e t p d s) = terminalProjectDirs s"
  "terminalScanTimers (created e t p d s) = terminalScanTimers s"
  "timers (created e t p d s) = (timers s)(nextTimer s \<mapsto> Interval 2000 (PollTick (nextAgentId s)))"
  "nextTimer (created e t p d s) = Suc (nextTimer s)"
  "pollingTimers (created e t p d s) = (pollingTimers s)(nextAgentId s \<mapsto> nextTimer s)"
  "posted (created e t p d s) = (if webviewView s then posted s @ [AgentCreated (nextAgentId s)] else posted s)"
  by (simp_all add: created_def)

lemma ages_created: "p \<notin> claimedFiles s \<Longrightarrow> ages s (created e t p d s)"
proof (rule agesI)
  assume p: "p \<notin> claimedFiles s" and s: "ainv s"
  have fresh: "nextAgentId s \<notin> fst ` set (agents s)"
    using s by (auto simp: ainv_def keys_def)
  note upd = update_fresh [OF fresh]
  show "ainv (created e t p d s)"
    using s p by (auto simp: ainv_def keys_def paths_def upd lockstep_def)
next
  show "nextAgentId s \<le> nextAgentId (created e t p d s)" by simp
next
  fix k a a' assume s: "ainv s" and "map_of (agents (created e t p d s)) k = Some a'"
    "map_of (agents s) k = Some a"
  then show "evolves a a'"
    using ainv_key_less [OF s, of k a] by (auto simp: update_conv' split: if_splits)
next
  fix k a' assume "map_of (agents (created e t p d s)) k = Some a'" "map_of (agents s) k = None"
  then show "nextAgentId s \<le> k"
    by (auto simp: update_conv' split: if_splits)
qed

lemma ages_createAgentFromFile:
  "p \<notin> claimedFiles s \<Longrightarrow> ages s (createAgentFromFile parse e t p d s)"
  unfolding createAgentFromFile_created
  by (rule ages_trans [OF ages_created steady_ages [OF steady_readNewLines]])

lemma tinv_created: "tinv s \<Longrightarrow> tinv (created e t p d s)"
proof -
  assume inv: "tinv s"
  define s0 where "s0 = post (AgentCreated (nextAgentId s))
          (s\<lparr>nextAgentId := Suc (nextAgentId s),
             agents := AList.update (nextAgentId s)
               \<lparr> agent_id = nextAgentId s, terminalRef = t, projectDir = d,
                 jsonlFile = p, fileOffset = 0, lineBuffer = [],
                 activeToolIds = {}, activeToolStatuses = [], isWaiting = False \<rparr> (agents s),
             claimedFiles := insert p (claimedFiles s)\<rparr>)"
  have "tinv s0 = tinv s"
    by (rule tinv_cong) (simp_all add: s0_def)
  with inv have 0: "tinv s0" by simp
  define s1 where "s1 = (case fs_file e p of None \<Rightarrow> s0
                          | Some f \<Rightarrow> s0\<lparr>fileWatchers := (fileWatchers s0)(nextAgentId s \<mapsto> p)\<rparr>)"
  have "tinv s1 = tinv s0"
    by (rule tinv_cong) (simp_all add: s1_def split: option.splits)
  with 0 have 1: "tinv s1" by simp
  define s2 where "s2 = addTimer (Interval 2000 (PollTick (nextAgentId s))) s1"
  have 2: "tinv s2"
    unfolding s2_def by (rule tinv_addTimer [OF 1]) simp
  have "tinv (s2\<lparr>pollingTimers := (pollingTimers s2)(nextAgentId s \<mapsto> nextTimer s1)\<rparr>)"
    by (rule tinv_setPolling [OF 2]) (auto simp: s2_def)
  moreover have "created e t p d s = s2\<lparr>pollingTimers := (pollingTimers s2)(nextAgentId s \<mapsto> nextTimer s1)\<rparr>"
    unfolding created_def startFileWatching_def Let_def s2_def s1_def s0_def
    by (simp split: option.splits)
  ultimately show ?thesis by simp
qed

lemma tinv_createAgentFromFile: "tinv s \<Longrightarrow> tinv (createAgentFromFile parse e t p d s)"
  by (simp add: createAgentFromFile_created tinv_readNewLines tinv_created)

lemma steady_webviewView: "steady s s' \<Longrightarrow> webviewView s' = webviewView s"
  by (simp add: steady_def)

lemma steady_claimedFiles: "steady s s' \<Longrightarrow> claimedFiles s' = claimedFiles s"
  by (simp add: steady_def)

lemma steady_terminalProjectDirs: "steady s s' \<Longrightarrow> terminalProjectDirs s' = terminalProjectDirs s"
  by (simp add: steady_def)

lemma createAgentFromFile_fields [simp]:
  "webviewView (createAgentFromFile parse e t p d s) = webviewView s"
  "claimedFiles (createAgentFromFile parse e t p d s) = insert p (claimedFiles s)"
  "terminalProjectDirs (createAgentFromFile parse e t p d s) = terminalProjectDirs s"
  unfolding createAgentFromFile_created
  by (simp_all add: steady_webviewView [OF steady_readNewLines]
        steady_claimedFiles [OF steady_readNewLines]
        steady_terminalProjectDirs [OF steady_readNewLines])

lemma removeAgent_fields [simp]:
  "webviewView (removeAgent k s) = webviewView s"
  "nextAgentId (removeAgent k s) = nextAgentId s"
  "nextTimer (removeAgent k s) = nextTimer s"
  "posted (removeAgent k s) = posted s"
  "terminalProjectDirs (removeAgent k s) = terminalProjectDirs s"
  "terminalScanTimers (removeAgent k s) = terminalScanTimers s"
  by (simp_all add: removeAgent_def Let_def split: option.splits)

lemma removeAgent_agents:
  "agents (removeAgent k s) = AList.delete k (agents s)"
  by (auto simp: removeAgent_def Let_def map_of_eq_None_iff split: option.splits)

lemma removeAgent_claimedFiles:
  "claimedFiles (removeAgent k s) =
     (case map_of (agents s) k of None \<Rightarrow> claimedFiles s
      | Some a \<Rightarrow> claimedFiles s - {jsonlFile a})"
  by (simp add: removeAgent_def Let_def split: option.splits)

lemma set_delete_filter: "set (AList.delete k xs) = {p \<in> set xs. fst p \<noteq> k}"
  by (auto simp: AList.delete_eq)

lemma filter_only:
  assumes mem: "(k, a) \<in> set xs" and only: "\<And>p. p \<in> set xs \<Longrightarrow> fst p = k \<Longrightarrow> p = (k, a)"
  shows "{p \<in> set xs. fst p \<noteq> k} = set xs - {(k, a)}"
proof (rule set_eqI)
  fix p show "p \<in> {p \<in> set xs. fst p \<noteq> k} \<longleftrightarrow> p \<in> set xs - {(k, a)}"
  proof (cases "fst p = k")
    case True
    then show ?thesis using only [of p] by (cases p) auto
  next
    case False
    then show ?thesis by auto
  qed
qed

lemma paths_delete:
  assumes keys: "distinct (map fst xs)" and ps: "distinct (map (\<lambda>p. jsonlFile (snd p)) xs)"
    and a: "map_of xs k = Some a"
  shows "set (map (\<lambda>p. jsonlFile (snd p)) (AList.delete k xs)) =
     set (map (\<lambda>p. jsonlFile (snd p)) xs) - {jsonlFile a}"
proof -
  have mem: "(k, a) \<in> set xs" by (rule map_of_SomeD [OF a])
  have only: "p = (k, a)" if "p \<in> set xs" "fst p = k" for p
  proof -
    from that have "(k, snd p) \<in> set xs" by (cases p) auto
    then have "map_of xs k = Some (snd p)" using keys by simp
    with a that(2) show ?thesis by (cases p) auto
  qed
  have del: "set (AList.delete k xs) = set xs - {(k, a)}"
    unfolding set_delete_filter by (rule filter_only [OF mem only])
  have inj: "inj_on (\<lambda>p. jsonlFile (snd p)) (set xs)"
    using ps by (simp add: distinct_map)
  have "(\<lambda>p. jsonlFile (snd p)) ` (set xs - {(k, a)}) =
        (\<lambda>p. jsonlFile (snd p)) ` set xs - (\<lambda>p. jsonlFile (snd p)) ` {(k, a)}"
    by (rule inj_on_image_set_diff [OF inj]) (use mem in auto)
  then show ?thesis by (simp add: del)
qed

lemma distinct_paths_delete:
  "distinct (map (\<lambda>p. jsonlFile (snd p)) xs) \<Longrightarrow>
   distinct (map (\<lambda>p. jsonlFile (snd p)) (AList.delete k xs))"
  by (simp add: AList.delete_eq distinct_map_filter)

lemma ages_removeAgent: "ages s (removeAgent k s)"
proof (cases "map_of (agents s) k")
  case None
  then show ?thesis by (simp add: removeAgent_def)
next
  case (Some a)
  show ?thesis
  proof (rule agesI)
    assume s: "ainv s"
    have "set (AList.delete k (agents s)) \<subseteq> set (agents s)"
      by (auto simp: set_delete_filter)
    then have sub: "p \<in> set (agents s)" if "p \<in> set (AList.delete k (agents s))" for p
      using that by blast
    show "ainv (removeAgent k s)"
      using s Some paths_delete [of "agents s" k a]
      unfolding ainv_def keys_def paths_def
      by (auto simp: removeAgent_agents removeAgent_claimedFiles distinct_delete
            distinct_paths_delete keys_delete list_all_iff dest: sub)
  next
    show "nextAgentId s \<le> nextAgentId (removeAgent k s)" by simp
  next
    fix j b b' assume "map_of (agents (removeAgent k s)) j = Some b'" "map_of (agents s) j = Some b"
    then show "evolves b b'"
      by (auto simp: removeAgent_agents delete_conv' split: if_splits)
  next
    fix j b' assume "map_of (agents (removeAgent k s)) j = Some b'" "map_of (agents s) j = None"
    then show "nextAgentId s \<le> j"
      by (auto simp: removeAgent_agents delete_conv' split: if_splits)
  qed
qed

lemma tinv_removeAgent:
  assumes inv: "tinv s"
  shows "tinv (removeAgent k s)"
proof (cases "map_of (agents s) k")
  case None
  then show ?thesis by (simp add: removeAgent_def inv)
next
  case (Some a)
  define s1 where "s1 = s\<lparr>fileWatchers := (fileWatchers s)(k := None)\<rparr>"
  define s2 where "s2 = (case pollingTimers s1 k of None \<Rightarrow> s1 | Some pt \<Rightarrow> clearTimer pt s1)"
  define s3 where "s3 = s2\<lparr>pollingTimers := (pollingTimers s2)(k := None)\<rparr>"
  define s4 where "s4 = cancelWaitingTimer k s3"
  have "tinv s1 = tinv s" by (rule tinv_cong) (simp_all add: s1_def)
  then have 1: "tinv s1" using inv by simp
  have 3: "tinv s3"
  proof (cases "pollingTimers s1 k")
    case None
    then have "s2 = s1" by (simp add: s2_def)
    show ?thesis
      by (rule tinv_shrink [OF 1]) (auto simp: s3_def \<open>s2 = s1\<close> split: if_splits)
  next
    case (Some pt)
    then have s2: "s2 = clearTimer pt s1" by (simp add: s2_def)
    show ?thesis
    proof (rule tinv_drop [OF 1, where h = pt])
      show "waitingTimers s3 b = Some h' \<Longrightarrow> waitingTimers s1 b = Some h' \<and> h' \<noteq> pt" for b h'
        using tinv_W1 [OF 1, of b h'] tinv_P' [OF 1 Some, of _ b]
        by (auto simp: s3_def s2)
    qed (auto simp: s3_def s2 split: if_splits)
  qed
  have "tinv s4" unfolding s4_def by (rule tinv_cancelWaitingTimer [OF 3])
  moreover have "tinv (removeAgent k s) = tinv s4"
    by (rule tinv_cong)
       (simp_all add: removeAgent_def Let_def Some s4_def s3_def s2_def s1_def split: option.splits)
  ultimately show ?thesis by simp
qed

lemma ages_post [simp]: "ages s (post m s)"
  by (rule steady_ages) simp

lemma closeAgentOf_props:
  "ages s (closeAgentOf x p s)" "tinv s \<Longrightarrow> tinv (closeAgentOf x p s)"
  "webviewView (closeAgentOf x p s) = webviewView s"
  by (auto simp: closeAgentOf_def tinv_removeAgent intro: ages_trans [OF ages_removeAgent ages_post])

lemma cleanupTerminalScan_agents [simp]:
  "agents (cleanupTerminalScan x s) = agents s" "nextAgentId (cleanupTerminalScan x s) = nextAgentId s"
  "claimedFiles (cleanupTerminalScan x s) = claimedFiles s"
  "webviewView (cleanupTerminalScan x s) = webviewView s"
  "posted (cleanupTerminalScan x s) = posted s"
  by (simp_all add: cleanupTerminalScan_def Let_def split: option.splits)

lemma ainv_cong:
  "agents s' = agents s \<Longrightarrow> nextAgentId s' = nextAgentId s \<Longrightarrow> claimedFiles s' = claimedFiles s \<Longrightarrow>
   ainv s' = ainv s"
  by (simp add: ainv_def keys_def paths_def)

lemma ages_same:
  "agents s' = agents s \<Longrightarrow> nextAgentId s' = nextAgentId s \<Longrightarrow> claimedFiles s' = claimedFiles s \<Longrightarrow>
   ages s s'"
proof (rule agesI)
  assume eq: "agents s' = agents s" "nextAgentId s' = nextAgentId s" "claimedFiles s' = claimedFiles s"
  show "ainv s \<Longrightarrow> ainv s'" using ainv_cong [OF eq] by simp
  show "nextAgentId s \<le> nextAgentId s'" using eq by simp
  show "map_of (agents s') k = Some a' \<Longrightarrow> map_of (agents s) k = Some a \<Longrightarrow> evolves a a'" for k a a'
    using eq by simp
  show "map_of (agents s') k = Some a' \<Longrightarrow> map_of (agents s) k = None \<Longrightarrow> nextAgentId s \<le> k" for k a'
    using eq by simp
qed

lemma tinv_cleanupTerminalScan:
  assumes inv: "tinv s"
  shows "tinv (cleanupTerminalScan x s)"
proof (cases "terminalScanTimers s x")
  case None
  show ?thesis
    by (rule tinv_shrink [OF inv]) (auto simp: cleanupTerminalScan_def None split: if_splits)
next
  case (Some h)
  show ?thesis
  proof (rule tinv_drop [OF inv, where h = h])
    show "waitingTimers (cleanupTerminalScan x s) b = Some h' \<Longrightarrow>
          waitingTimers s b = Some h' \<and> h' \<noteq> h" for b h'
      using tinv_W1 [OF inv, of b h'] tinv_S' [OF inv Some, of _ b]
      by (auto simp: cleanupTerminalScan_def Some)
  qed (auto simp: cleanupTerminalScan_def Some split: if_splits)
qed

lemma onDidCloseTerminal_props:
  "ages s (onDidCloseTerminal x s)" "tinv s \<Longrightarrow> tinv (onDidCloseTerminal x s)"
  "webviewView (onDidCloseTerminal x s) = webviewView s"
proof -
  show "ages s (onDidCloseTerminal x s)"
    unfolding onDidCloseTerminal_def
    by (rule ages_trans [OF ages_fold ages_same]) (simp_all add: closeAgentOf_props)
  show "tinv s \<Longrightarrow> tinv (onDidCloseTerminal x s)"
    unfolding onDidCloseTerminal_def
    by (intro tinv_cleanupTerminalScan fold_inv [where P = tinv]) (simp_all add: closeAgentOf_props)
  have "webviewView (fold (closeAgentOf x) xs s) = webviewView s" for xs
    by (induction xs arbitrary: s) (simp_all add: closeAgentOf_props)
  then show "webviewView (onDidCloseTerminal x s) = webviewView s"
    by (simp add: onDidCloseTerminal_def)
qed

lemma turn_refl [simp]: "turn s s"
  by (simp add: turn_def)

lemma turn_trans: "turn s t \<Longrightarrow> turn t u \<Longrightarrow> turn s u"
  by (auto simp: turn_def intro: ages_trans)

lemma turn_fold: "(\<And>x t. turn t (f x t)) \<Longrightarrow> turn s (fold f xs s)"
proof (induction xs arbitrary: s)
  case Nil
  show ?case by simp
next
  case (Cons x xs)
  have "turn s (f x s)" by (rule Cons.prems)
  moreover have "turn (f x s) (fold f xs (f x s))" by (rule Cons.IH) (rule Cons.prems)
  ultimately show ?case by (auto intro: turn_trans)
qed

lemma turn_readNewLines: "turn s (readNewLines parse e k s)"
  by (simp add: turn_def steady_ages steady_readNewLines tinv_readNewLines
        steady_webviewView [OF steady_readNewLines])

lemma turn_createAgentFromFile:
  "p \<notin> claimedFiles s \<Longrightarrow> turn s (createAgentFromFile parse e t p d s)"
  by (simp add: turn_def ages_createAgentFromFile tinv_createAgentFromFile)

lemma turn_claimSessionFile: "turn s (claimSessionFile parse e t sid d s)"
  by (simp add: claimSessionFile_def Let_def turn_createAgentFromFile split: option.splits)

lemma turn_claimIfRecent: "turn s (claimIfRecent parse e t d f s)"
  by (simp add: claimIfRecent_def turn_createAgentFromFile)

lemma turn_scanForNewFiles: "turn s (scanForNewFiles parse e t sid s)"
  by (auto simp: scanForNewFiles_def Let_def turn_claimSessionFile turn_claimIfRecent
           split: option.splits
           intro!: turn_trans [OF turn_claimSessionFile turn_fold])

lemma turn_onDidCloseTerminal: "turn s (onDidCloseTerminal x s)"
  by (simp add: turn_def onDidCloseTerminal_props)

lemma turn_posts: "agents s' = agents s \<Longrightarrow> nextAgentId s' = nextAgentId s \<Longrightarrow>
   claimedFiles s' = claimedFiles s \<Longrightarrow> timers s' = timers s \<Longrightarrow> nextTimer s' = nextTimer s \<Longrightarrow>
   waitingTimers s' = waitingTimers s \<Longrightarrow> pollingTimers s' = pollingTimers s \<Longrightarrow>
   terminalScanTimers s' = terminalScanTimers s \<Longrightarrow> webviewView s' = webviewView s \<Longrightarrow> turn s s'"
  using tinv_cong [of s' s] by (simp add: turn_def ages_same)

lemma turn_post [simp]: "turn s (post m s)"
  by (rule turn_posts) simp_all

lemma turn_sendAgentStatus: "turn s (sendAgentStatus p s)"
proof -
  have "turn s (fold (\<lambda>ts. post (AgentToolStart (fst p) (fst ts) (snd ts))) xs s)" for xs
    by (rule turn_fold) simp
  then show ?thesis
    by (auto simp: sendAgentStatus_def Let_def intro: turn_trans [OF _ turn_post])
qed

lemma turn_sendExistingAgents: "turn s (sendExistingAgents s)"
  by (auto simp: sendExistingAgents_def sendCurrentAgentStatuses_def
           intro!: turn_trans [OF turn_post turn_fold] turn_sendAgentStatus)

lemma turn_startTerminalFileScan: "turn s (startTerminalFileScan e x sid cwd s)"
proof (cases "getProjectDirPath e cwd")
  case None
  then show ?thesis by (simp add: startTerminalFileScan_def)
next
  case (Some d)
  define s1 where "s1 = s\<lparr>terminalProjectDirs := (terminalProjectDirs s)(x \<mapsto> d)\<rparr>"
  define s2 where "s2 = addTimer (Interval 1000 (ScanTick x sid)) s1"
  define s3 where "s3 = s2\<lparr>terminalScanTimers := (terminalScanTimers s2)(x \<mapsto> nextTimer s1)\<rparr>"
  have eq: "startTerminalFileScan e x sid cwd s = (if d = [] then s else s3)"
    by (simp add: startTerminalFileScan_def Some Let_def s3_def s2_def s1_def)
  have "tinv s3" if "tinv s"
  proof -
    have "tinv s1 = tinv s" by (rule tinv_cong) (simp_all add: s1_def)
    with that have 1: "tinv s1" by simp
    have 2: "tinv s2" unfolding s2_def by (rule tinv_addTimer [OF 1]) simp
    show ?thesis unfolding s3_def by (rule tinv_setScan [OF 2]) (auto simp: s2_def)
  qed
  moreover have "ages s s3"
    by (rule ages_same) (simp_all add: s3_def s2_def s1_def)
  moreover have "webviewView s3 = webviewView s"
    by (simp add: s3_def s2_def s1_def)
  ultimately show ?thesis
    by (simp add: eq turn_def)
qed

text \<open>A timer leaves the table as it fires; the callback runs on what remains.\<close>

lemma tinv_fire_timeout:
  assumes inv: "tinv s" and h: "timers s h = Some (Timeout d c)"
  shows "tinv (runCallback parse e h c (clearTimer h s))"
proof (cases c)
  case (WaitingFire a)
  have w: "waitingTimers s a = Some h"
    by (rule tinv_W2 [OF inv h]) (simp add: WaitingFire)
  have "tinv (waitingTimerFired a (clearTimer h s))"
  proof (rule tinv_drop [OF inv, where h = h])
    show "waitingTimers (waitingTimerFired a (clearTimer h s)) b = Some h' \<Longrightarrow>
          waitingTimers s b = Some h' \<and> h' \<noteq> h" for b h'
      using tinv_W1 [OF inv, of b h'] h
      by (auto simp: waitingTimerFired_def Let_def WaitingFire split: option.splits if_splits)
    show "waitingTimers s b = Some h' \<Longrightarrow> h' \<noteq> h \<Longrightarrow>
          waitingTimers (waitingTimerFired a (clearTimer h s)) b = Some h'" for b h'
      using w by (auto simp: waitingTimerFired_def Let_def split: option.splits)
  qed (auto simp: waitingTimerFired_def Let_def split: option.splits)
  then show ?thesis by (simp add: runCallback_def WaitingFire)
next
  case other: (ToolDoneFire a tid)
  have "tinv (clearTimer h s)"
  proof (rule tinv_drop [OF inv, where h = h])
    show "waitingTimers (clearTimer h s) b = Some h' \<Longrightarrow> waitingTimers s b = Some h' \<and> h' \<noteq> h"
      for b h'
      using tinv_W1 [OF inv, of b h'] h by (auto simp: other)
  qed auto
  then show ?thesis by (simp add: runCallback_def other)
next
  case other: (ScanTick x sid)
  have 1: "tinv (clearTimer h s)"
  proof (rule tinv_drop [OF inv, where h = h])
    show "waitingTimers (clearTimer h s) b = Some h' \<Longrightarrow> waitingTimers s b = Some h' \<and> h' \<noteq> h"
      for b h'
      using tinv_W1 [OF inv, of b h'] h by (auto simp: other)
  qed auto
  show ?thesis
    using turn_scanForNewFiles [of "clearTimer h s" parse e x sid] 1
    by (simp add: runCallback_def other turn_def)
next
  case other: (PollTick a)
  have 1: "tinv (clearTimer h s)"
  proof (rule tinv_drop [OF inv, where h = h])
    show "waitingTimers (clearTimer h s) b = Some h' \<Longrightarrow> waitingTimers s b = Some h' \<and> h' \<noteq> h"
      for b h'
      using tinv_W1 [OF inv, of b h'] h by (auto simp: other)
  qed auto
  have 2: "tinv (clearTimer h (clearTimer h s))"
    using 1 by (simp add: clearTimer_def)
  show ?thesis
    using 1 2 by (simp add: runCallback_def other tinv_readNewLines)
qed

lemma tinv_fire_interval:
  assumes inv: "tinv s" and h: "timers s h = Some (Interval d c)"
  shows "tinv (runCallback parse e h c s)"
proof (cases c)
  case (WaitingFire a)
  have "waitingTimers s a = Some h"
    by (rule tinv_W2 [OF inv h]) (simp add: WaitingFire)
  then have "timers s h = Some (Timeout 2000 (WaitingFire a))"
    by (rule tinv_W1 [OF inv])
  with h show ?thesis by simp
next
  case other: (ToolDoneFire a tid)
  then show ?thesis by (simp add: runCallback_def inv)
next
  case other: (ScanTick x sid)
  show ?thesis
    using turn_scanForNewFiles [of s parse e x sid] inv
    by (simp add: runCallback_def other turn_def)
next
  case other: (PollTick a)
  have "tinv (clearTimer h s)"
  proof (rule tinv_drop [OF inv, where h = h])
    show "waitingTimers (clearTimer h s) b = Some h' \<Longrightarrow> waitingTimers s b = Some h' \<and> h' \<noteq> h"
      for b h'
      using tinv_W1 [OF inv, of b h'] h by (auto simp: other)
  qed auto
  then show ?thesis
    using inv by (simp add: runCallback_def other tinv_readNewLines)
qed

lemma runCallback_ages: "ages s (runCallback parse e h c s)"
proof (cases c)
  case (ScanTick x sid)
  then show ?thesis using turn_scanForNewFiles [of s parse e x sid] by (simp add: runCallback_def turn_def)
next
  case (PollTick a)
  then show ?thesis
    by (auto simp: runCallback_def steady_ages steady_readNewLines intro: steady_ages)
next
  case (WaitingFire a)
  then show ?thesis by (simp add: runCallback_def steady_ages steady_waitingTimerFired)
next
  case (ToolDoneFire a tid)
  then show ?thesis by (simp add: runCallback_def)
qed

lemma runCallback_webviewView: "webviewView (runCallback parse e h c s) = webviewView s"
proof (cases c)
  case (ScanTick x sid)
  then show ?thesis using turn_scanForNewFiles [of s parse e x sid] by (simp add: runCallback_def turn_def)
next
  case (PollTick a)
  then show ?thesis
    by (simp add: runCallback_def steady_webviewView [OF steady_readNewLines])
next
  case (WaitingFire a)
  then show ?thesis by (simp add: runCallback_def steady_webviewView [OF steady_waitingTimerFired])
next
  case (ToolDoneFire a tid)
  then show ?thesis by (simp add: runCallback_def)
qed

lemma turn_fire: "turn s (fire parse e h s)"
proof (cases "timers s h")
  case None
  then show ?thesis by (simp add: fire_def)
next
  case (Some t)
  show ?thesis
  proof (cases t)
    case (Timeout d c)
    have "ages s (clearTimer h s)" by (rule steady_ages) simp
    then have "ages s (runCallback parse e h c (clearTimer h s))"
      by (rule ages_trans) (rule runCallback_ages)
    then show ?thesis
      using tinv_fire_timeout [of s h d c parse e] Some Timeout
      by (simp add: fire_def turn_def runCallback_webviewView)
  next
    case (Interval d c)
    then show ?thesis
      using tinv_fire_interval [of s h d c parse e] Some
      by (simp add: fire_def turn_def runCallback_webviewView runCallback_ages)
  qed
qed

lemma coherent_init: "coherent init"
  by (simp add: coherent_def init_def ainv_def tinv_def keys_def paths_def)

lemma coherent_step: "coherent s \<Longrightarrow> coherent (step parse ev s)"
proof (cases "webviewView s")
  case True
  assume inv: "coherent s"
  have "turn s (step parse ev s) \<or> step parse ev s = s\<lparr>webviewView := True\<rparr>"
    by (cases ev)
       (simp_all add: step_def turn_startTerminalFileScan turn_onDidCloseTerminal
          turn_sendExistingAgents turn_fire turn_readNewLines)
  moreover have "s\<lparr>webviewView := True\<rparr> = s" using True by simp
  ultimately have "turn s (step parse ev s)" by auto
  then show ?thesis
    using inv True by (auto simp: coherent_def turn_def dest: ages_ainv)
next
  case False
  assume inv: "coherent s"
  with False have empty: "agents s = []" "timers s = Map.empty" "fileWatchers s = Map.empty"
    by (simp_all add: coherent_def)
  have "step parse ev s = s \<or> step parse ev s = s\<lparr>webviewView := True\<rparr>"
    using False empty by (cases ev) (simp_all add: step_def fire_def)
  moreover have "coherent (s\<lparr>webviewView := True\<rparr>)"
  proof -
    have "ainv (s\<lparr>webviewView := True\<rparr>) = ainv s" by (rule ainv_cong) simp_all
    moreover have "tinv (s\<lparr>webviewView := True\<rparr>) = tinv s" by (rule tinv_cong) simp_all
    ultimately show ?thesis using inv by (simp add: coherent_def)
  qed
  ultimately show ?thesis using inv by auto
qed

lemma coherent_run: "coherent s \<Longrightarrow> coherent (run parse evs s)"
  unfolding run_def by (rule fold_inv [where P = coherent]) (rule coherent_step)

lemma ages_step: "coherent s \<Longrightarrow> ages s (step parse ev s)"
proof -
  assume inv: "coherent s"
  have r: "ages s (s\<lparr>webviewView := True\<rparr>)" by (rule ages_same) simp_all
  have "turn s (step parse ev s) \<or> step parse ev s = s\<lparr>webviewView := True\<rparr>"
    by (cases ev)
       (simp_all add: step_def turn_startTerminalFileScan turn_onDidCloseTerminal
          turn_sendExistingAgents turn_fire turn_readNewLines)
  then show ?thesis using r by (auto simp: turn_def)
qed

lemma ages_run: "coherent s \<Longrightarrow> ages s (run parse evs s)"
proof (induction evs arbitrary: s)
  case Nil
  show ?case by (simp add: run_def)
next
  case (Cons ev evs)
  have "ages s (step parse ev s)" by (rule ages_step [OF Cons.prems])
  moreover have "ages (step parse ev s) (run parse evs (step parse ev s))"
    by (rule Cons.IH) (rule coherent_step [OF Cons.prems])
  ultimately show ?case by (simp add: run_def ages_trans)
qed

lemmas model_defs =
  run_def step_def fire_def runCallback_def startTerminalFileScan_def getProjectDirPath_def
  path_join_def path_join_list_def path_normalize_def maxStringLength_def
  scanForNewFiles_def claimSessionFile_def claimIfRecent_def isFileRecent_def
  endsWith_def createAgentFromFile_def startFileWatching_def readNewLines_def
  processTranscriptLine_def interpretRecord_def toolStart_def toolResult_def
  clearAgentActivity_def cancelWaitingTimer_def startWaitingTimer_def waitingTimerFired_def
  formatToolStatus_def basename_def post_def modify_def addTimer_def clearTimer_def
  utf8_toString_def emit_cp_def blank_def is_js_space_def js_def init_def Let_def
  removeAgent_def onDidCloseTerminal_def closeAgentOf_def cleanupTerminalScan_def
  sendExistingAgents_def sendCurrentAgentStatuses_def sendAgentStatus_def

lemmas ex_defs = ex_dir_def ex_file_def line_tool_use_def line_text_def line_tool_result_def
  line_turn_def nl_def ex_block_def ex_record_def ex_parse_def ex_env_def ex_agent_def

lemma run_append: "run parse (evs @ evs') s = run parse evs' (run parse evs s)"
  by (simp add: run_def)

lemma ex_open_base: "run ex_parse ex_open init = ex_base"
  by (simp add: model_defs ex_defs ex_open_def ex_base_def)

lemma unread_same: "agents s' = agents s \<Longrightarrow> unread s s'"
  by (simp add: unread_def list_all2_same)

lemma unread_trans: "unread s t \<Longrightarrow> unread t u \<Longrightarrow> unread s u"
  unfolding unread_def by (erule (1) list_all2_trans [rotated]) auto

lemma unread_fold: "(\<And>x t. unread t (f x t)) \<Longrightarrow> unread s (fold f xs s)"
proof (induction xs arbitrary: s)
  case Nil
  show ?case by (simp add: unread_same)
next
  case (Cons x xs)
  have "unread s (f x s)" by (rule Cons.prems)
  moreover have "unread (f x s) (fold f xs (f x s))" by (rule Cons.IH) (rule Cons.prems)
  ultimately show ?case by (auto intro: unread_trans)
qed

lemma unread_modify:
  assumes "\<And>a. fileOffset (f a) = fileOffset a \<and> lineBuffer (f a) = lineBuffer a \<and>
             jsonlFile (f a) = jsonlFile a"
  shows "unread s (modify k f s)"
proof -
  have "list_all2 (\<lambda>p q. fst p = fst q \<and> fileOffset (snd q) = fileOffset (snd p) \<and>
                  lineBuffer (snd q) = lineBuffer (snd p) \<and> jsonlFile (snd q) = jsonlFile (snd p))
          xs (AList.map_entry k f xs)" for xs
    by (induction xs) (auto simp: assms list_all2_same)
  then show ?thesis by (simp add: unread_def)
qed

lemma unread_toolStart: "toolStart k b s = Inr s' \<Longrightarrow> unread s s'"
proof -
  have "unread s (post m (modify k
           (\<lambda>a. a\<lparr>activeToolIds := insert tid (activeToolIds a),
                   activeToolStatuses := AList.update tid st (activeToolStatuses a)\<rparr>) s))"
    for m tid st
    by (rule unread_trans [OF unread_modify unread_same]) simp_all
  then show "toolStart k b s = Inr s' \<Longrightarrow> unread s s'"
    by (auto simp: toolStart_def Let_def unread_same split: option.splits if_splits sum.splits)
qed

lemma unread_toolResult: "unread s (toolResult k b s)"
proof -
  have "unread s (addTimer t (modify k
           (\<lambda>a. a\<lparr>activeToolIds := activeToolIds a - {tid},
                   activeToolStatuses := AList.delete tid (activeToolStatuses a)\<rparr>) s))"
    for t tid
    by (rule unread_trans [OF unread_modify unread_same]) simp_all
  then show ?thesis
    by (simp add: toolResult_def unread_same split: option.splits)
qed

lemma unread_setWaiting:
  "agents t = agents s \<Longrightarrow> unread s (post m (modify k (\<lambda>a. a\<lparr>isWaiting := w\<rparr>) t))"
  by (rule unread_trans [OF unread_same unread_trans [OF unread_modify unread_same]]) simp_all

lemma unread_clearAgentActivity: "agents t = agents s \<Longrightarrow> unread s (clearAgentActivity k t)"
proof -
  assume eq: "agents t = agents s"
  have "unread t (post m' (post m (modify k
          (\<lambda>a. a\<lparr>activeToolIds := {}, activeToolStatuses := [], isWaiting := False\<rparr>) t)))" for m m'
    by (rule unread_trans [OF unread_modify unread_same]) simp_all
  then have "unread t (clearAgentActivity k t)"
    by (simp add: clearAgentActivity_def unread_same split: option.splits)
  with unread_same [OF eq] show ?thesis by (rule unread_trans)
qed

lemma startWaitingTimer_agents [simp]: "agents (startWaitingTimer k d s) = agents s"
  by (simp add: startWaitingTimer_def Let_def)

lemma unread_refl [simp]: "unread s s"
  by (simp add: unread_same)

lemma unread_startWaitingTimer: "unread s (startWaitingTimer k d s)"
  by (simp add: unread_same)

lemma unread_toolStartLoop: "unread s (toolStartLoop k bs s)"
  by (rule toolStartLoop_rel [where R = unread]) (auto intro: unread_trans unread_toolStart)

lemma unread_toolResultLoop: "unread s (toolResultLoop k bs s)"
  by (rule toolResultLoop_rel [where R = unread]) (auto intro: unread_trans unread_toolResult)

lemma unread_openTools:
  "unread s (toolStartLoop k bs (post m (modify k (\<lambda>a. a\<lparr>isWaiting := w\<rparr>) (cancelWaitingTimer k s))))"
  by (rule unread_trans [OF unread_setWaiting unread_toolStartLoop]) simp

lemma unread_interpretRecord: "unread s (interpretRecord k r s)"
  unfolding interpretRecord_def
  by (auto split: content.splits sum.splits
           intro!: unread_clearAgentActivity unread_setWaiting unread_openTools
                   unread_startWaitingTimer unread_toolResultLoop)

lemma unread_processTranscriptLine: "unread s (processTranscriptLine parse k line s)"
  by (simp add: processTranscriptLine_def unread_interpretRecord unread_same split: option.splits)

lemma unread_map_of:
  "unread s s' \<Longrightarrow> map_of (agents s) k = Some a \<Longrightarrow>
   \<exists>a'. map_of (agents s') k = Some a' \<and> fileOffset a' = fileOffset a \<and> lineBuffer a' = lineBuffer a"
proof -
  assume "unread s s'"
  then have "list_all2 (\<lambda>p q. fst p = fst q \<and> fileOffset (snd q) = fileOffset (snd p) \<and>
                  lineBuffer (snd q) = lineBuffer (snd p) \<and> jsonlFile (snd q) = jsonlFile (snd p))
       (agents s) (agents s')"
    by (simp add: unread_def)
  then show "map_of (agents s) k = Some a \<Longrightarrow>
    \<exists>a'. map_of (agents s') k = Some a' \<and> fileOffset a' = fileOffset a \<and> lineBuffer a' = lineBuffer a"
    by (induction rule: list_all2_induct) (auto split: if_splits)
qed

lemma map_entry_twice:
  "AList.map_entry k g2 (AList.map_entry k g1 xs) = AList.map_entry k (\<lambda>x. g2 (g1 x)) xs"
  by (induction xs) auto

text \<open>The lines a pump hands to the interpreter, and the state it hands them in.\<close>

lemma readNewLines_reads:
  assumes a: "map_of (agents s) k = Some a" and f: "fs_file e (jsonlFile a) = Some f"
    and more: "fileOffset a < length (bytes f)" and r: "readable f"
    and fits: "length (lineBuffer a @ utf8_toString (drop (fileOffset a) (bytes f))) \<le> maxStringLength"
  shows "readNewLines parse e k s =
     fold (processTranscriptLine parse k)
       (filter (\<lambda>l. \<not> blank l)
          (butlast (split_nl (lineBuffer a @ utf8_toString (drop (fileOffset a) (bytes f))))))
       (modify k (\<lambda>x. x\<lparr>fileOffset := length (bytes f),
          lineBuffer := last (split_nl (lineBuffer a @ utf8_toString (drop (fileOffset a) (bytes f))))\<rparr>) s)"
proof -
  have skip: "fold (\<lambda>line st. if blank line then st else g line st) ls t =
        fold g (filter (\<lambda>l. \<not> blank l) ls) t" for g :: "jsstring \<Rightarrow> provider \<Rightarrow> provider" and ls t
    by (induction ls arbitrary: t) auto
  have twice: "modify k g2 (modify k g1 s) = modify k (\<lambda>x. g2 (g1 x)) s" for g1 g2
    by (simp add: modify_def map_entry_twice)
  from fits have "\<not> maxStringLength < length (utf8_toString (drop (fileOffset a) (bytes f)))"
    and "\<not> maxStringLength < length (lineBuffer a) + length (utf8_toString (drop (fileOffset a) (bytes f)))"
    by simp_all
  then show ?thesis
    using a f more r by (simp add: readNewLines_def Let_def skip twice)
qed

lemma readNewLines_absent: "map_of (agents s) k = None \<Longrightarrow> readNewLines parse e k s = s"
  by (simp add: readNewLines_def)

lemma readNewLines_missing:
  "map_of (agents s) k = Some a \<Longrightarrow> fs_file e (jsonlFile a) = None \<Longrightarrow> readNewLines parse e k s = s"
  by (simp add: readNewLines_def)

lemma readNewLines_small:
  "map_of (agents s) k = Some a \<Longrightarrow> fs_file e (jsonlFile a) = Some f \<Longrightarrow>
   length (bytes f) \<le> fileOffset a \<Longrightarrow> readNewLines parse e k s = s"
  by (simp add: readNewLines_def)

lemma readNewLines_unreadable:
  "map_of (agents s) k = Some a \<Longrightarrow> fs_file e (jsonlFile a) = Some f \<Longrightarrow>
   \<not> readable f \<Longrightarrow> readNewLines parse e k s = s"
  by (simp add: readNewLines_def)

lemma map_of_map_entry_same:
  "map_of xs k = Some a \<Longrightarrow> map_of (AList.map_entry k f xs) k = Some (f a)"
  by (simp add: map_of_map_entry)

lemma readNewLines_reader:
  assumes a: "map_of (agents s) k = Some a" and f: "fs_file e (jsonlFile a) = Some f"
    and more: "fileOffset a < length (bytes f)" and r: "readable f"
    and fits: "length (lineBuffer a @ utf8_toString (drop (fileOffset a) (bytes f))) \<le> maxStringLength"
  shows "\<exists>a'. map_of (agents (readNewLines parse e k s)) k = Some a' \<and>
     fileOffset a' = length (bytes f) \<and>
     lineBuffer a' = last (split_nl (lineBuffer a @ utf8_toString (drop (fileOffset a) (bytes f))))"
proof -
  define s1 where "s1 = modify k (\<lambda>x. x\<lparr>fileOffset := length (bytes f),
          lineBuffer := last (split_nl (lineBuffer a @ utf8_toString (drop (fileOffset a) (bytes f))))\<rparr>) s"
  have 1: "map_of (agents s1) k = Some (a\<lparr>fileOffset := length (bytes f),
          lineBuffer := last (split_nl (lineBuffer a @ utf8_toString (drop (fileOffset a) (bytes f))))\<rparr>)"
    using a by (simp add: s1_def map_of_map_entry)
  have "unread s1 (fold (processTranscriptLine parse k) ls s1)" for ls
    by (rule unread_fold) (rule unread_processTranscriptLine)
  from unread_map_of [OF this 1] show ?thesis
    unfolding readNewLines_reads [OF assms] s1_def by auto
qed

lemma readNewLines_dropped:
  assumes a: "map_of (agents s) k = Some a" and f: "fs_file e (jsonlFile a) = Some f"
    and more: "fileOffset a < length (bytes f)" and r: "readable f"
    and long: "maxStringLength < length (lineBuffer a @ utf8_toString (drop (fileOffset a) (bytes f)))"
  shows "readNewLines parse e k s = modify k (\<lambda>x. x\<lparr>fileOffset := length (bytes f)\<rparr>) s"
  using a f more r long by (simp add: readNewLines_def Let_def)

lemma readNewLines_offset:
  assumes a: "map_of (agents s) k = Some a" and f: "fs_file e (jsonlFile a) = Some f"
    and more: "fileOffset a < length (bytes f)" and r: "readable f"
  shows "\<exists>a'. map_of (agents (readNewLines parse e k s)) k = Some a' \<and>
     fileOffset a' = length (bytes f)"
proof (cases "length (lineBuffer a @ utf8_toString (drop (fileOffset a) (bytes f))) \<le> maxStringLength")
  case True
  from readNewLines_reader [OF a f more r True, of parse] show ?thesis
    by blast
next
  case False
  then have "maxStringLength < length (lineBuffer a @ utf8_toString (drop (fileOffset a) (bytes f)))"
    by simp
  from readNewLines_dropped [OF a f more r this, of parse] show ?thesis
    using a by (simp add: map_of_map_entry)
qed

lemma filter_eq_upt: "h0 < n \<Longrightarrow> filter (\<lambda>h. h = h0) [0..<n] = [h0]"
proof (induction n)
  case 0
  then show ?case by simp
next
  case (Suc n)
  show ?case
  proof (cases "h0 = n")
    case True
    have "filter (\<lambda>h. h = n) [0..<n] = []" by (simp add: filter_empty_conv)
    then show ?thesis using True by simp
  next
    case False
    then show ?thesis using Suc by simp
  qed
qed

lemma pendingWaiting_tinv:
  assumes inv: "tinv s"
  shows "pendingWaiting s k = (case waitingTimers s k of None \<Rightarrow> [] | Some h \<Rightarrow> [h])"
proof -
  have P: "(case timers s h of None \<Rightarrow> False | Some t \<Rightarrow> timer_cb t = WaitingFire k) \<longleftrightarrow>
           waitingTimers s k = Some h" for h
  proof (cases "timers s h")
    case None
    then show ?thesis using tinv_W1 [OF inv, of k h] by auto
  next
    case (Some t)
    show ?thesis
    proof
      assume "case timers s h of None \<Rightarrow> False | Some t \<Rightarrow> timer_cb t = WaitingFire k"
      then show "waitingTimers s k = Some h" using Some tinv_W2 [OF inv Some, of k] by simp
    next
      assume "waitingTimers s k = Some h"
      from tinv_W1 [OF inv this] show "case timers s h of None \<Rightarrow> False | Some t \<Rightarrow> timer_cb t = WaitingFire k"
        by simp
    qed
  qed
  show ?thesis
  proof (cases "waitingTimers s k")
    case None
    then show ?thesis by (simp add: pendingWaiting_def P)
  next
    case (Some h0)
    have "h0 < nextTimer s" by (rule tinv_fresh [OF inv tinv_W1 [OF inv Some]])
    then have "filter (\<lambda>h. h = h0) [0..<nextTimer s] = [h0]" by (rule filter_eq_upt)
    moreover have "(\<lambda>h. Some h0 = Some h) = (\<lambda>h. h = h0)" by auto
    ultimately show ?thesis by (simp add: pendingWaiting_def P Some)
  qed
qed

lemma coherent_webviewView: "coherent s \<Longrightarrow> map_of (agents s) k = Some a \<Longrightarrow> webviewView s"
  by (auto simp: coherent_def)

lemma coherent_timer_webviewView: "coherent s \<Longrightarrow> timers s h = Some t \<Longrightarrow> webviewView s"
  by (auto simp: coherent_def)

lemma coherent_tinv: "coherent s \<Longrightarrow> tinv s"
  by (simp add: coherent_def)

lemma startWaitingTimer_fields [simp]:
  "posted (startWaitingTimer k d s) = posted s"
  "nextTimer (startWaitingTimer k d s) = Suc (nextTimer s)"
  "waitingTimers (startWaitingTimer k d s) = (waitingTimers s)(k \<mapsto> nextTimer s)"
  "timers (startWaitingTimer k d s) (nextTimer s) = Some (Timeout d (WaitingFire k))"
  "webviewView (startWaitingTimer k d s) = webviewView s"
  by (simp_all add: startWaitingTimer_def Let_def)

lemma waitingTimerFired_fields [simp]:
  "posted (waitingTimerFired k s) = (if webviewView s then posted s @ [AgentStatus k Waiting] else posted s)"
  "waitingTimers (waitingTimerFired k s) = (waitingTimers s)(k := None)"
  "agents (waitingTimerFired k s) = AList.map_entry k (\<lambda>a. a\<lparr>isWaiting := True\<rparr>) (agents s)"
  "timers (waitingTimerFired k s) = timers s"
  "nextTimer (waitingTimerFired k s) = nextTimer s"
proof -
  have "AList.map_entry k f xs = xs" if "map_of xs k = None" for f :: "AgentState \<Rightarrow> AgentState" and xs
    using that by (induction xs) (auto split: if_splits)
  then show "agents (waitingTimerFired k s) = AList.map_entry k (\<lambda>a. a\<lparr>isWaiting := True\<rparr>) (agents s)"
    by (simp add: waitingTimerFired_def Let_def split: option.splits)
qed (simp_all add: waitingTimerFired_def Let_def split: option.splits)

text \<open>Firing the waiting debounce.\<close>

lemma fire_waiting:
  assumes c: "coherent s" and h: "timers s h = Some (Timeout d (WaitingFire k))"
  shows "posted (fire parse e h s) = posted s @ [AgentStatus k Waiting]"
    and "pendingWaiting (fire parse e h s) k = []"
    and "pendingWaiting s k = [h]"
    and "agents (fire parse e h s) = AList.map_entry k (\<lambda>a. a\<lparr>isWaiting := True\<rparr>) (agents s)"
proof -
  have inv: "tinv s" by (rule coherent_tinv [OF c])
  have v: "webviewView s" by (rule coherent_timer_webviewView [OF c h])
  have eq: "fire parse e h s = waitingTimerFired k (clearTimer h s)"
    by (simp add: fire_def h runCallback_def)
  show "posted (fire parse e h s) = posted s @ [AgentStatus k Waiting]"
    by (simp add: eq v)
  have "tinv (fire parse e h s)"
    using turn_fire [of s parse e h] inv by (simp add: turn_def)
  from pendingWaiting_tinv [OF this] show "pendingWaiting (fire parse e h s) k = []"
    by (simp add: eq)
  have "waitingTimers s k = Some h"
    by (rule tinv_W2 [OF inv h]) simp
  with pendingWaiting_tinv [OF inv] show "pendingWaiting s k = [h]"
    by simp
  show "agents (fire parse e h s) = AList.map_entry k (\<lambda>a. a\<lparr>isWaiting := True\<rparr>) (agents s)"
    by (simp add: eq)
qed

section \<open>The claims\<close>

lemma ex_tool_use:
  "run ex_parse [FileChanged (ex_env (line_tool_use @ nl)) 1] ex_base =
     ex_base\<lparr> agents := [(1, ex_agent\<lparr> fileOffset := 121, activeToolIds := {js ''t1''},
                               activeToolStatuses := [(js ''t1'', js ''Reading a.ts'')] \<rparr>)],
              posted := [AgentCreated 1, AgentStatus 1 Active,
                         AgentToolStart 1 (js ''t1'') (js ''Reading a.ts'')] \<rparr>"
  by (simp add: model_defs ex_defs ex_base_def)

text \<open>
  C10.  In every state the event loop can reach, the set \<open>activeToolIds\<close> of every agent
  is the key set of its \<open>activeToolStatuses\<close>; and from any state in which that holds,
  interpreting a record (tool start, tool result, new user turn or any other) and
  reading new lines keep it.
\<close>

theorem tools_in_lockstep:
  "list_all (\<lambda>p. activeToolIds (snd p) = fst ` set (activeToolStatuses (snd p)))
     (agents (run parse evs init)) \<and>
   (list_all (\<lambda>p. activeToolIds (snd p) = fst ` set (activeToolStatuses (snd p))) (agents s) \<longrightarrow>
    list_all (\<lambda>p. activeToolIds (snd p) = fst ` set (activeToolStatuses (snd p)))
      (agents (interpretRecord k r s)) \<and>
    list_all (\<lambda>p. activeToolIds (snd p) = fst ` set (activeToolStatuses (snd p)))
      (agents (readNewLines parse e k s)))"
proof -
  have "coherent (run parse evs init)"
    by (rule coherent_run [OF coherent_init])
  then have "list_all (\<lambda>p. lockstep (snd p)) (agents (run parse evs init))"
    by (simp add: coherent_def ainv_def)
  moreover have "list_all (\<lambda>p. lockstep (snd p)) (agents (interpretRecord k r s))"
    if "list_all (\<lambda>p. lockstep (snd p)) (agents s)"
    by (rule steady_lockstep [OF steady_interpretRecord that])
  moreover have "list_all (\<lambda>p. lockstep (snd p)) (agents (readNewLines parse e k s))"
    if "list_all (\<lambda>p. lockstep (snd p)) (agents s)"
    by (rule steady_lockstep [OF steady_readNewLines that])
  ultimately show ?thesis
    by (simp add: lockstep_def)
qed

theorem tools_in_lockstep_witness:
  "map (\<lambda>p. (activeToolIds (snd p), activeToolStatuses (snd p)))
     (agents (run ex_parse (ex_open @ [FileChanged (ex_env (line_tool_use @ nl)) 1]) init)) =
     [({js ''t1''}, [(js ''t1'', js ''Reading a.ts'')])] \<and>
   list_all (\<lambda>p. activeToolIds (snd p) = fst ` set (activeToolStatuses (snd p)))
     (agents (run ex_parse (ex_open @ [FileChanged (ex_env (line_tool_use @ nl)) 1]) init)) \<and>
   list_all (\<lambda>p. activeToolIds (snd p) = fst ` set (activeToolStatuses (snd p)))
     (agents (interpretRecord 1
        (ex_record ''user'' (Blocks [Some ((ex_block ''tool_result'')\<lparr> b_tool_use_id := Some (js ''t1'') \<rparr>)]))
        (run ex_parse (ex_open @ [FileChanged (ex_env (line_tool_use @ nl)) 1]) init)))"
  using tools_in_lockstep [of ex_parse "ex_open @ [FileChanged (ex_env (line_tool_use @ nl)) 1]"
      "run ex_parse (ex_open @ [FileChanged (ex_env (line_tool_use @ nl)) 1]) init" 1
      "ex_record ''user'' (Blocks [Some ((ex_block ''tool_result'')\<lparr> b_tool_use_id := Some (js ''t1'') \<rparr>)])"]
  by (simp add: run_append ex_open_base ex_tool_use del: One_nat_def)

text \<open>
  C1.  In every state the event loop can reach, no two agents hold the same transcript
  path, and the claim set is exactly the set of the paths the agents hold.  Both passes
  of the scanner leave the state alone on a path that is claimed, and creating an agent
  puts its path into the claim set.
\<close>

theorem at_most_one_claim:
  "distinct (paths (run parse evs init)) \<and>
   claimedFiles (run parse evs init) = set (paths (run parse evs init)) \<and>
   (path_join d (sid @ js ''.jsonl'') \<in> claimedFiles s \<longrightarrow>
      claimSessionFile parse e t (Some sid) d s = s) \<and>
   (f \<in> claimedFiles s \<longrightarrow> claimIfRecent parse e t d f s = s) \<and>
   f \<in> claimedFiles (createAgentFromFile parse e t f d s)"
proof -
  have "coherent (run parse evs init)"
    by (rule coherent_run [OF coherent_init])
  then show ?thesis
    by (simp add: coherent_def ainv_def claimSessionFile_def claimIfRecent_def Let_def)
qed

theorem at_most_one_claim_witness:
  "paths (run ex_parse (ex_open @ [Fire (ex_env []) 0, StartScan (ex_env []) 1 None None,
      Fire (ex_env []) 2]) init) = [ex_file] \<and>
   distinct (paths (run ex_parse (ex_open @ [Fire (ex_env []) 0, StartScan (ex_env []) 1 None None,
      Fire (ex_env []) 2]) init)) \<and>
   claimedFiles (run ex_parse (ex_open @ [Fire (ex_env []) 0, StartScan (ex_env []) 1 None None,
      Fire (ex_env []) 2]) init) = {ex_file} \<and>
   claimSessionFile ex_parse (ex_env []) 1 (Some (js ''s1'')) ex_dir ex_base = ex_base \<and>
   claimIfRecent ex_parse (ex_env []) 1 ex_dir ex_file ex_base = ex_base"
  using at_most_one_claim [of ex_parse
      "ex_open @ [Fire (ex_env []) 0, StartScan (ex_env []) 1 None None, Fire (ex_env []) 2]"
      ex_dir "js ''s1''" ex_base "ex_env []" 1 ex_file]
  by (simp add: run_append ex_open_base) (simp add: model_defs ex_defs ex_base_def paths_def)

lemma ex_text:
  "run ex_parse [FileChanged (ex_env (line_text @ nl)) 1] ex_base =
     ex_base\<lparr> agents := [(1, ex_agent\<lparr> fileOffset := 73 \<rparr>)],
              waitingTimers := [1 \<mapsto> 2],
              timers := [0 \<mapsto> Interval 1000 (ScanTick 0 (Some (js ''s1''))),
                         1 \<mapsto> Interval 2000 (PollTick 1),
                         2 \<mapsto> Timeout 2000 (WaitingFire 1)],
              nextTimer := 3 \<rparr>"
  by (simp add: model_defs ex_defs ex_base_def)

lemma ex_truncated:
  "run ex_parse [FileChanged (ex_env ''0123456789'') 1]
     (run ex_parse [FileChanged (ex_env (line_text @ nl)) 1] ex_base) =
   run ex_parse [FileChanged (ex_env (line_text @ nl)) 1] ex_base"
  unfolding ex_text by (simp add: model_defs ex_defs ex_base_def)

text \<open>
  C3, as the specification has it, fails on a file that shrinks.  The agent has read
  the 73 bytes of a transcript; the file is then replaced by one of 10 bytes and a pump
  runs.  The guard of line 313 returns at once, and the offset stays at 73, above the
  size 10 the pump has just observed.
\<close>

theorem offset_above_observed_size:
  "map_of (agents (run ex_parse
      (ex_open @ [FileChanged (ex_env (line_text @ nl)) 1, FileChanged (ex_env ''0123456789'') 1])
      init)) 1 = Some (ex_agent\<lparr> fileOffset := 73 \<rparr>) \<and>
   fs_file (ex_env ''0123456789'') (jsonlFile (ex_agent\<lparr> fileOffset := 73 \<rparr>)) =
     Some (File 0 True (map of_char ''0123456789'')) \<and>
   length (bytes (File 0 True (map of_char ''0123456789''))) = 10 \<and>
   length (bytes (File 0 True (map of_char ''0123456789'')))
     < fileOffset (ex_agent\<lparr> fileOffset := 73 \<rparr>)"
proof -
  have "run ex_parse
      (ex_open @ [FileChanged (ex_env (line_text @ nl)) 1, FileChanged (ex_env ''0123456789'') 1])
      init = run ex_parse [FileChanged (ex_env ''0123456789'') 1]
        (run ex_parse [FileChanged (ex_env (line_text @ nl)) 1] (run ex_parse ex_open init))"
    using run_append [of ex_parse "ex_open @ [FileChanged (ex_env (line_text @ nl)) 1]"
        "[FileChanged (ex_env ''0123456789'') 1]" init]
      run_append [of ex_parse ex_open "[FileChanged (ex_env (line_text @ nl)) 1]" init]
    by simp
  then have "run ex_parse
      (ex_open @ [FileChanged (ex_env (line_text @ nl)) 1, FileChanged (ex_env ''0123456789'') 1])
      init = run ex_parse [FileChanged (ex_env (line_text @ nl)) 1] ex_base"
    by (simp only: ex_open_base ex_truncated)
  then have 1: "map_of (agents (run ex_parse
      (ex_open @ [FileChanged (ex_env (line_text @ nl)) 1, FileChanged (ex_env ''0123456789'') 1])
      init)) 1 = Some (ex_agent\<lparr> fileOffset := 73 \<rparr>)"
    by (simp add: ex_text del: One_nat_def)
  have 2: "fs_file (ex_env ''0123456789'') (jsonlFile (ex_agent\<lparr> fileOffset := 73 \<rparr>)) =
     Some (File 0 True (map of_char ''0123456789''))"
    by (simp add: ex_env_def ex_agent_def)
  from 1 2 show ?thesis
    by simp
qed

text \<open>
  C3, amended.  Along every run of the event loop an agent's \<open>fileOffset\<close> never
  decreases: if the agent is there after some events and still there after any further
  events (pumps from the watcher and from the poll in any order, and everything else),
  its offset has not gone down.  A pump that reads sets the offset to the size it
  observed, and no other pump changes it: after \<open>readNewLines\<close> the offset is the observed
  size when that is larger than the offset and the file can be read, and the old offset
  otherwise.  So the offset after a pump is at most the size the pump observed provided
  the offset before it was: the bound holds as long as the file has not shrunk below
  what was read, and not after a truncation.  A pump that observes a size at or below
  the offset, or no file, returns the state it was given: no field of any agent changes
  and nothing is posted.
\<close>

theorem offset_monotone:
  "(map_of (agents (run parse evs init)) k = Some a \<longrightarrow>
    map_of (agents (run parse evs' (run parse evs init))) k = Some a' \<longrightarrow>
      fileOffset a \<le> fileOffset a') \<and>
   (map_of (agents s) k = Some b \<longrightarrow> fs_file e (jsonlFile b) = Some f \<longrightarrow>
      (\<exists>b'. map_of (agents (readNewLines parse e k s)) k = Some b' \<and>
         fileOffset b' = (if fileOffset b < length (bytes f) \<and> readable f then length (bytes f)
                          else fileOffset b) \<and>
         (fileOffset b \<le> length (bytes f) \<longrightarrow> fileOffset b' \<le> length (bytes f))) \<and>
      (length (bytes f) \<le> fileOffset b \<longrightarrow> readNewLines parse e k s = s \<and>
         posted (readNewLines parse e k s) = posted s \<and>
         agents (readNewLines parse e k s) = agents s)) \<and>
   (map_of (agents s) k = Some b \<longrightarrow> fs_file e (jsonlFile b) = None \<longrightarrow>
      readNewLines parse e k s = s)"
proof (intro conjI impI)
  assume a: "map_of (agents (run parse evs init)) k = Some a"
    and a': "map_of (agents (run parse evs' (run parse evs init))) k = Some a'"
  have c: "coherent (run parse evs init)"
    by (rule coherent_run [OF coherent_init])
  then have "ainv (run parse evs init)"
    by (simp add: coherent_def)
  from ages_evolves [OF ages_run [OF c] this a' a] show "fileOffset a \<le> fileOffset a'"
    by (simp add: evolves_def)
next
  assume b: "map_of (agents s) k = Some b" and f: "fs_file e (jsonlFile b) = Some f"
  show "\<exists>b'. map_of (agents (readNewLines parse e k s)) k = Some b' \<and>
         fileOffset b' = (if fileOffset b < length (bytes f) \<and> readable f then length (bytes f)
                          else fileOffset b) \<and>
         (fileOffset b \<le> length (bytes f) \<longrightarrow> fileOffset b' \<le> length (bytes f))"
  proof (cases "fileOffset b < length (bytes f) \<and> readable f")
    case True
    then show ?thesis
      using readNewLines_offset [OF b f, of parse] by auto
  next
    case False
    then have "readNewLines parse e k s = s"
      using readNewLines_small [OF b f, of parse] readNewLines_unreadable [OF b f, of parse]
      by (cases "readable f") auto
    then show ?thesis
      using b False by auto
  qed
  show "readNewLines parse e k s = s" if "length (bytes f) \<le> fileOffset b"
    by (rule readNewLines_small [OF b f that])
  then show "posted (readNewLines parse e k s) = posted s" if "length (bytes f) \<le> fileOffset b"
    using that by simp
  show "agents (readNewLines parse e k s) = agents s" if "length (bytes f) \<le> fileOffset b"
    using readNewLines_small [OF b f that, of parse] by simp
next
  assume "map_of (agents s) k = Some b" "fs_file e (jsonlFile b) = None"
  then show "readNewLines parse e k s = s"
    by (rule readNewLines_missing)
qed

theorem offset_monotone_witness:
  "map_of (agents (run ex_parse (ex_open @ [FileChanged (ex_env (line_text @ nl)) 1]) init)) 1 =
     Some (ex_agent\<lparr> fileOffset := 73 \<rparr>) \<and>
   map_of (agents (run ex_parse [Fire (ex_env (line_text @ nl)) 1,
       FileChanged (ex_env (line_text @ nl @ line_turn @ nl)) 1]
     (run ex_parse (ex_open @ [FileChanged (ex_env (line_text @ nl)) 1]) init))) 1 =
     Some (ex_agent\<lparr> fileOffset := 117, isWaiting := True \<rparr>) \<and>
   fileOffset (ex_agent\<lparr> fileOffset := 73 \<rparr>)
     \<le> fileOffset (ex_agent\<lparr> fileOffset := 117, isWaiting := True \<rparr>) \<and>
   (\<exists>b'. map_of (agents (readNewLines ex_parse (ex_env (line_text @ nl)) 1 ex_base)) 1 = Some b' \<and>
      fileOffset b' = 73 \<and> fileOffset b' \<le> length (line_text @ nl)) \<and>
   readNewLines ex_parse (ex_env []) 1 ex_base = ex_base \<and>
   readNewLines ex_parse ((ex_env [])\<lparr> fs_file := Map.empty \<rparr>) 1 ex_base = ex_base"
proof -
  have 1: "map_of (agents (run ex_parse (ex_open @ [FileChanged (ex_env (line_text @ nl)) 1]) init)) 1 =
     Some (ex_agent\<lparr> fileOffset := 73 \<rparr>)"
    by (simp add: run_append ex_open_base ex_text del: One_nat_def)
  have 2: "map_of (agents (run ex_parse [Fire (ex_env (line_text @ nl)) 1,
       FileChanged (ex_env (line_text @ nl @ line_turn @ nl)) 1]
     (run ex_parse (ex_open @ [FileChanged (ex_env (line_text @ nl)) 1]) init))) 1 =
     Some (ex_agent\<lparr> fileOffset := 117, isWaiting := True \<rparr>)"
    by (simp add: run_append ex_open_base ex_text del: One_nat_def)
       (simp add: model_defs ex_defs ex_base_def)
  have b: "map_of (agents ex_base) 1 = Some ex_agent"
    by (simp add: ex_base_def)
  have f1: "fs_file (ex_env (line_text @ nl)) (jsonlFile ex_agent) =
       Some (File 0 True (map of_char (line_text @ nl)))"
    and f2: "fs_file (ex_env []) (jsonlFile ex_agent) = Some (File 0 True [])"
    and f3: "fs_file ((ex_env [])\<lparr> fs_file := Map.empty \<rparr>) (jsonlFile ex_agent) = None"
    by (simp_all add: ex_env_def ex_agent_def)
  note T1 = offset_monotone [of ex_parse "ex_open @ [FileChanged (ex_env (line_text @ nl)) 1]" 1
        "ex_agent\<lparr> fileOffset := 73 \<rparr>"
        "[Fire (ex_env (line_text @ nl)) 1, FileChanged (ex_env (line_text @ nl @ line_turn @ nl)) 1]"
        "ex_agent\<lparr> fileOffset := 117, isWaiting := True \<rparr>"
        ex_base ex_agent "ex_env (line_text @ nl)" "File 0 True (map of_char (line_text @ nl))"]
  note T2 = offset_monotone [of ex_parse "[]" 1 ex_agent "[]" ex_agent
        ex_base ex_agent "ex_env []" "File 0 True []"]
  note T3 = offset_monotone [of ex_parse "[]" 1 ex_agent "[]" ex_agent
        ex_base ex_agent "(ex_env [])\<lparr> fs_file := Map.empty \<rparr>"]
  have 3: "fileOffset (ex_agent\<lparr> fileOffset := 73 \<rparr>)
     \<le> fileOffset (ex_agent\<lparr> fileOffset := 117, isWaiting := True \<rparr>)"
    using T1 1 2 by blast
  have le: "fileOffset ex_agent \<le> length (bytes (File 0 True (map of_char (line_text @ nl))))"
    by (simp add: ex_agent_def)
  have "\<exists>b'. map_of (agents (readNewLines ex_parse (ex_env (line_text @ nl)) 1 ex_base)) 1 = Some b' \<and>
      fileOffset b' = (if fileOffset ex_agent < length (bytes (File 0 True (map of_char (line_text @ nl)))) \<and>
          readable (File 0 True (map of_char (line_text @ nl)))
        then length (bytes (File 0 True (map of_char (line_text @ nl)))) else fileOffset ex_agent) \<and>
      fileOffset b' \<le> length (bytes (File 0 True (map of_char (line_text @ nl))))"
    using T1 b f1 le by blast
  moreover have "(if fileOffset ex_agent < length (bytes (File 0 True (map of_char (line_text @ nl)))) \<and>
          readable (File 0 True (map of_char (line_text @ nl)))
        then length (bytes (File 0 True (map of_char (line_text @ nl)))) else fileOffset ex_agent) = 73"
    by (simp add: ex_agent_def line_text_def nl_def)
  ultimately have 4: "\<exists>b'. map_of (agents (readNewLines ex_parse (ex_env (line_text @ nl)) 1 ex_base)) 1 = Some b' \<and>
      fileOffset b' = 73 \<and> fileOffset b' \<le> length (line_text @ nl)"
    by simp
  have "length (bytes (File 0 True [])) \<le> fileOffset ex_agent"
    by simp
  then have 5: "readNewLines ex_parse (ex_env []) 1 ex_base = ex_base"
    using T2 b f2 by blast
  have 6: "readNewLines ex_parse ((ex_env [])\<lparr> fs_file := Map.empty \<rparr>) 1 ex_base = ex_base"
    using T3 b f3 by blast
  show ?thesis
    using 1 2 3 4 5 6 by blast
qed

lemma processTranscriptLine_interpret:
  "map_of (agents s) k = Some a \<Longrightarrow> parse line = Some r \<Longrightarrow>
   processTranscriptLine parse k line s = interpretRecord k r s"
  by (simp add: processTranscriptLine_def)


lemma js_inject [simp]: "js a = js b \<longleftrightarrow> a = b"
  by (simp add: js_def inj_map_eq_map inj_on_def)

lemma interpret_turn:
  "rec_type r = Some (js ''system'') \<Longrightarrow> rec_subtype r = Some (js ''turn_duration'') \<Longrightarrow>
   interpretRecord k r s =
     post (AgentStatus k Waiting) (modify k (\<lambda>a. a\<lparr>isWaiting := True\<rparr>) (cancelWaitingTimer k s))"
  by (simp add: interpretRecord_def)




lemma ex_parse_lines:
  "ex_parse (js line_text) = Some (ex_record ''assistant'' (Blocks [Some (ex_block ''text'')]))"
  "ex_parse (js line_turn) =
     Some ((ex_record ''system'' NoContent)\<lparr> rec_subtype := Some (js ''turn_duration'') \<rparr>)"
  "ex_parse (js line_tool_result) =
     Some (ex_record ''user'' (Blocks [Some ((ex_block ''tool_result'')\<lparr> b_tool_use_id := Some (js ''t1'') \<rparr>)]))"
  "ex_parse (js line_tool_use) =
     Some (ex_record ''assistant''
          (Blocks [Some ((ex_block ''tool_use'')
             \<lparr> b_id := Some (js ''t1''), b_name := Some (js ''Read''),
               b_input := Some [js ''file_path'' \<mapsto> JString (js ''/w/a.ts'')] \<rparr>)]))"
  by (simp_all add: ex_parse_def line_text_def line_turn_def line_tool_result_def line_tool_use_def)

lemma ex_base_fields:
  "map_of (agents ex_base) 1 = Some ex_agent" "map_of (agents ex_base) (Suc 0) = Some ex_agent"
  "posted ex_base = [AgentCreated 1]" "nextTimer ex_base = 2" "webviewView ex_base"
  by (simp_all add: ex_base_def)


lemma turn_completion_wins:
  assumes c: "coherent s" and a: "map_of (agents s) k = Some a" and p: "parse line = Some r"
    and r: "rec_type r = Some (js ''system'')" "rec_subtype r = Some (js ''turn_duration'')"
  shows "posted (processTranscriptLine parse k line s) = posted s @ [AgentStatus k Waiting] \<and>
     pendingWaiting (processTranscriptLine parse k line s) k = [] \<and>
     map_of (agents (processTranscriptLine parse k line s)) k = Some (a\<lparr>isWaiting := True\<rparr>) \<and>
     (\<forall>h\<in>set (pendingWaiting s k).
        timers (processTranscriptLine parse k line s) h = None \<and>
        fire parse e h (processTranscriptLine parse k line s) = processTranscriptLine parse k line s)"
proof -
  define s' where "s' = processTranscriptLine parse k line s"
  have eq: "s' = post (AgentStatus k Waiting)
                   (modify k (\<lambda>a. a\<lparr>isWaiting := True\<rparr>) (cancelWaitingTimer k s))"
    unfolding s'_def processTranscriptLine_interpret [of s k a parse line r, OF a p]
    by (rule interpret_turn [OF r])
  have inv: "tinv s" by (rule coherent_tinv [OF c])
  have v: "webviewView s" by (rule coherent_webviewView [OF c a])
  have inv': "tinv s'" by (simp add: eq tinv_cancelWaitingTimer inv)
  have 1: "posted s' = posted s @ [AgentStatus k Waiting]"
    by (simp add: eq v)
  have 2: "pendingWaiting s' k = []"
    using pendingWaiting_tinv [OF inv', of k] by (simp add: eq)
  have 3: "map_of (agents s') k = Some (a\<lparr>isWaiting := True\<rparr>)"
    using a by (simp add: eq map_of_map_entry)
  have 4: "timers s' h = None \<and> fire parse e h s' = s'" if "h \<in> set (pendingWaiting s k)" for h
  proof -
    from that have "waitingTimers s k = Some h"
      using pendingWaiting_tinv [OF inv, of k] by (auto split: option.splits)
    then have "timers s' h = None" by (simp add: eq)
    then show ?thesis by (simp add: fire_def)
  qed
  show ?thesis
    using 1 2 3 4 unfolding s'_def by blast
qed





lemma map_entry_same:
  "map_of xs k = Some a \<Longrightarrow> f a = a \<Longrightarrow> AList.map_entry k f xs = xs"
  by (induction xs) (auto split: if_splits)

lemma modify_same: "map_of (agents s) k = Some a \<Longrightarrow> f a = a \<Longrightarrow> modify k f s = s"
  by (simp add: modify_def map_entry_same)

lemma delete_absent: "k \<notin> fst ` set xs \<Longrightarrow> AList.delete k xs = xs"
  by (induction xs) auto

lemma closing_unopened:
  assumes "lockstep a" and "tid \<notin> activeToolIds a"
  shows "a\<lparr>activeToolIds := activeToolIds a - {tid},
           activeToolStatuses := AList.delete tid (activeToolStatuses a)\<rparr> = a"
proof -
  from assms have "tid \<notin> fst ` set (activeToolStatuses a)"
    by (simp add: lockstep_def)
  then have "AList.delete tid (activeToolStatuses a) = activeToolStatuses a"
    by (rule delete_absent)
  with assms(2) show ?thesis
    by simp
qed

lemma toolResultLoop_unmatched:
  "map_of (agents s) k = Some a \<Longrightarrow> lockstep a \<Longrightarrow> set (resultIds bs) \<inter> activeToolIds a = {} \<Longrightarrow>
   toolResultLoop k bs s = fold (\<lambda>tid. addTimer (Timeout 300 (ToolDoneFire k tid))) (resultIds bs) s"
proof (induction k bs s rule: toolResultLoop.induct)
  case (3 agentId b bs s)
  show ?case
  proof (cases "\<exists>tid. b_tool_use_id b = Some tid \<and> b_type b = js ''tool_result'' \<and> tid \<noteq> []")
    case True
    then obtain tid where tid: "b_tool_use_id b = Some tid" "b_type b = js ''tool_result''" "tid \<noteq> []"
      by blast
    with "3.prems"(3) have "tid \<notin> activeToolIds a" and rest: "set (resultIds bs) \<inter> activeToolIds a = {}"
      by auto
    from closing_unopened [OF "3.prems"(2) this(1)]
    have eq: "toolResult agentId b s = addTimer (Timeout 300 (ToolDoneFire agentId tid)) s"
      using tid by (simp add: toolResult_def modify_same [OF "3.prems"(1)])
    have "map_of (agents (toolResult agentId b s)) agentId = Some a"
      using "3.prems"(1) by (simp add: eq)
    from "3.IH" [OF this "3.prems"(2) rest] show ?thesis
      using tid by (simp add: eq)
  next
    case False
    then have eq: "toolResult agentId b s = s" and ids: "resultIds (Some b # bs) = resultIds bs"
      by (auto simp: toolResult_def split: option.splits)
    from "3.IH" [unfolded eq, OF "3.prems"(1,2)] "3.prems"(3) show ?thesis
      unfolding ids by (simp add: eq)
  qed
qed simp_all

lemma fold_addTimer_fields:
  "agents (fold (\<lambda>x. addTimer (g x)) xs s) = agents s \<and>
   posted (fold (\<lambda>x. addTimer (g x)) xs s) = posted s \<and>
   nextTimer (fold (\<lambda>x. addTimer (g x)) xs s) = nextTimer s + length xs \<and>
   (\<forall>h < nextTimer s. timers (fold (\<lambda>x. addTimer (g x)) xs s) h = timers s h)"
  by (induction xs arbitrary: s) auto

lemma fold_addTimer_nth:
  "i < length xs \<Longrightarrow> timers (fold (\<lambda>x. addTimer (g x)) xs s) (nextTimer s + i) = Some (g (xs ! i))"
proof (induction xs arbitrary: s i)
  case (Cons x xs)
  show ?case
  proof (cases i)
    case 0
    have "timers (fold (\<lambda>x. addTimer (g x)) xs (addTimer (g x) s)) (nextTimer s) =
          timers (addTimer (g x) s) (nextTimer s)"
      using fold_addTimer_fields [of g xs "addTimer (g x) s"] by simp
    with 0 show ?thesis by simp
  next
    case (Suc j)
    with Cons.prems have "j < length xs" by simp
    from Cons.IH [OF this, of "addTimer (g x) s"] Suc show ?thesis by simp
  qed
qed simp

lemma fire_tool_done:
  "timers s h = Some (Timeout d (ToolDoneFire k tid)) \<Longrightarrow>
   fire parse e h s = post (AgentToolDone k tid) (clearTimer h s)"
  by (simp add: fire_def runCallback_def)

lemma unmatched_results:
  assumes c: "coherent s" and a: "map_of (agents s) k = Some a"
    and r: "rec_type r = Some (js ''user'')" "rec_content r = Blocks bs"
      "someType (js ''tool_result'') bs = Inr True"
    and u: "set (resultIds bs) \<inter> activeToolIds a = {}"
  shows "interpretRecord k r s =
           fold (\<lambda>tid. addTimer (Timeout 300 (ToolDoneFire k tid))) (resultIds bs) s"
    and "agents (interpretRecord k r s) = agents s"
    and "posted (interpretRecord k r s) = posted s"
    and "\<forall>i < length (resultIds bs).
           timers (interpretRecord k r s) (nextTimer s + i) =
             Some (Timeout 300 (ToolDoneFire k (resultIds bs ! i))) \<and>
           posted (fire parse e (nextTimer s + i) (interpretRecord k r s)) =
             posted s @ [AgentToolDone k (resultIds bs ! i)]"
proof -
  have l: "lockstep a"
    using c a by (auto simp: coherent_def ainv_def list_all_iff dest: map_of_SomeD)
  have v: "webviewView s"
    by (rule coherent_webviewView [OF c a])
  have "interpretRecord k r s = toolResultLoop k bs s"
    using r by (simp add: interpretRecord_def)
  then show eq: "interpretRecord k r s =
           fold (\<lambda>tid. addTimer (Timeout 300 (ToolDoneFire k tid))) (resultIds bs) s"
    by (simp add: toolResultLoop_unmatched [OF a l u])
  note f = fold_addTimer_fields [of "\<lambda>tid. Timeout 300 (ToolDoneFire k tid)" "resultIds bs" s]
  show "agents (interpretRecord k r s) = agents s" "posted (interpretRecord k r s) = posted s"
    using f by (simp_all add: eq)
  show "\<forall>i < length (resultIds bs).
           timers (interpretRecord k r s) (nextTimer s + i) =
             Some (Timeout 300 (ToolDoneFire k (resultIds bs ! i))) \<and>
           posted (fire parse e (nextTimer s + i) (interpretRecord k r s)) =
             posted s @ [AgentToolDone k (resultIds bs ! i)]"
  proof (intro allI impI)
    fix i assume i: "i < length (resultIds bs)"
    have t: "timers (interpretRecord k r s) (nextTimer s + i) =
             Some (Timeout 300 (ToolDoneFire k (resultIds bs ! i)))"
      unfolding eq by (rule fold_addTimer_nth [OF i])
    have "webviewView (interpretRecord k r s)"
      unfolding eq using v by (induction "resultIds bs" arbitrary: s) (simp_all add: fold_inv)
    then have "posted (fire parse e (nextTimer s + i) (interpretRecord k r s)) =
             posted (interpretRecord k r s) @ [AgentToolDone k (resultIds bs ! i)]"
      by (simp add: fire_tool_done [OF t] post_def clearTimer_def)
    with t f show "timers (interpretRecord k r s) (nextTimer s + i) =
             Some (Timeout 300 (ToolDoneFire k (resultIds bs ! i))) \<and>
           posted (fire parse e (nextTimer s + i) (interpretRecord k r s)) =
             posted s @ [AgentToolDone k (resultIds bs ! i)]"
      by (simp add: eq)
  qed
qed

lemma ex_result_only:
  "run ex_parse [FileChanged (ex_env (line_tool_result @ nl)) 1] ex_base =
     ex_base\<lparr> agents := [(1, ex_agent\<lparr> fileOffset := 82 \<rparr>)],
              timers := [0 \<mapsto> Interval 1000 (ScanTick 0 (Some (js ''s1''))),
                         1 \<mapsto> Interval 2000 (PollTick 1),
                         2 \<mapsto> Timeout 300 (ToolDoneFire 1 (js ''t1''))],
              nextTimer := 3 \<rparr>"
  by (simp add: model_defs ex_defs ex_base_def)

lemma ex_result_only_fired:
  "run ex_parse [Fire (ex_env (line_tool_result @ nl)) 2]
     (ex_base\<lparr> agents := [(1, ex_agent\<lparr> fileOffset := 82 \<rparr>)],
              timers := [0 \<mapsto> Interval 1000 (ScanTick 0 (Some (js ''s1''))),
                         1 \<mapsto> Interval 2000 (PollTick 1),
                         2 \<mapsto> Timeout 300 (ToolDoneFire 1 (js ''t1''))],
              nextTimer := 3 \<rparr>) =
     ex_base\<lparr> agents := [(1, ex_agent\<lparr> fileOffset := 82 \<rparr>)],
              nextTimer := 3, posted := [AgentCreated 1, AgentToolDone 1 (js ''t1'')] \<rparr>"
  by (simp add: model_defs ex_defs ex_base_def)

lemma ex_tool_cycle:
  "run ex_parse [FileChanged (ex_env (line_tool_use @ nl @ line_tool_result @ nl)) 1] ex_base =
     ex_base\<lparr> agents := [(1, ex_agent\<lparr> fileOffset := 203 \<rparr>)],
              timers := [0 \<mapsto> Interval 1000 (ScanTick 0 (Some (js ''s1''))),
                         1 \<mapsto> Interval 2000 (PollTick 1),
                         2 \<mapsto> Timeout 300 (ToolDoneFire 1 (js ''t1''))],
              nextTimer := 3,
              posted := [AgentCreated 1, AgentStatus 1 Active,
                         AgentToolStart 1 (js ''t1'') (js ''Reading a.ts'')] \<rparr>"
  by (simp add: model_defs ex_defs ex_base_def)

lemma ex_closed:
  "run ex_parse [CloseTerminal 0]
     (ex_base\<lparr> agents := [(1, ex_agent\<lparr> fileOffset := 203 \<rparr>)],
              timers := [0 \<mapsto> Interval 1000 (ScanTick 0 (Some (js ''s1''))),
                         1 \<mapsto> Interval 2000 (PollTick 1),
                         2 \<mapsto> Timeout 300 (ToolDoneFire 1 (js ''t1''))],
              nextTimer := 3,
              posted := [AgentCreated 1, AgentStatus 1 Active,
                         AgentToolStart 1 (js ''t1'') (js ''Reading a.ts'')] \<rparr>) =
     init\<lparr> nextAgentId := 2, webviewView := True,
            timers := [2 \<mapsto> Timeout 300 (ToolDoneFire 1 (js ''t1''))],
            nextTimer := 3,
            posted := [AgentCreated 1, AgentStatus 1 Active,
                       AgentToolStart 1 (js ''t1'') (js ''Reading a.ts''), AgentClosed 1] \<rparr>"
  by (simp add: model_defs ex_defs ex_base_def fun_eq_iff)

lemma ex_closed_fired:
  "run ex_parse [Fire e 2]
     (init\<lparr> nextAgentId := 2, webviewView := True,
            timers := [2 \<mapsto> Timeout 300 (ToolDoneFire 1 (js ''t1''))],
            nextTimer := 3,
            posted := [AgentCreated 1, AgentStatus 1 Active,
                       AgentToolStart 1 (js ''t1'') (js ''Reading a.ts''), AgentClosed 1] \<rparr>) =
     init\<lparr> nextAgentId := 2, webviewView := True, nextTimer := 3,
            posted := [AgentCreated 1, AgentStatus 1 Active,
                       AgentToolStart 1 (js ''t1'') (js ''Reading a.ts''), AgentClosed 1,
                       AgentToolDone 1 (js ''t1'')] \<rparr>"
  by (simp add: model_defs fun_eq_iff)

lemma js_empty [simp]: "js a = [] \<longleftrightarrow> a = []"
  by (simp add: js_def)

lemma run_two: "run parse (evs @ [a, b]) s = run parse [b] (run parse [a] (run parse evs s))"
  by (simp add: run_def)

lemma run_three:
  "run parse (evs @ [a, b, c]) s = run parse [c] (run parse [b] (run parse [a] (run parse evs s)))"
  by (simp add: run_def)

lemma toolResult_closes:
  assumes a: "map_of (agents s) k = Some a"
    and b: "b_type b = js ''tool_result''" "b_tool_use_id b = Some tid" "tid \<noteq> []"
  shows "\<exists>a'. map_of (agents (toolResult k b s)) k = Some a' \<and> tid \<notin> activeToolIds a'"
  using a b by (simp add: toolResult_def modify_def map_of_map_entry)

text \<open>
  C4, as the specification has it, fails: a tool result that matches no open tool does
  emit an event, 300 ms later.  The agent has no tool open and nothing has been posted
  for it but its creation; its transcript gets a user record with a \<open>tool_result\<close> for the
  id \<open>t1\<close>.  Lines 414 and 415 delete nothing, and line 417 arms the timeout all the same;
  when it fires, \<open>agentToolDone(1, t1)\<close> is posted, and no \<open>agentToolStart\<close> came before it.
\<close>

theorem tool_done_without_start:
  "map_of (agents (run ex_parse ex_open init)) 1 = Some ex_agent \<and>
   activeToolIds ex_agent = {} \<and>
   posted (run ex_parse ex_open init) = [AgentCreated 1] \<and>
   posted (run ex_parse
      (ex_open @ [FileChanged (ex_env (line_tool_result @ nl)) 1,
                  Fire (ex_env (line_tool_result @ nl)) 2]) init) =
     [AgentCreated 1, AgentToolDone 1 (js ''t1'')]"
proof -
  have "run ex_parse
      (ex_open @ [FileChanged (ex_env (line_tool_result @ nl)) 1,
                  Fire (ex_env (line_tool_result @ nl)) 2]) init =
     ex_base\<lparr> agents := [(1, ex_agent\<lparr> fileOffset := 82 \<rparr>)],
              nextTimer := 3, posted := [AgentCreated 1, AgentToolDone 1 (js ''t1'')] \<rparr>"
    by (simp only: run_two ex_open_base ex_result_only ex_result_only_fired)
  then show ?thesis
    by (simp add: ex_open_base ex_base_def ex_agent_def del: One_nat_def)
qed

text \<open>
  C4, amended.  In a state the event loop can reach, processing for a live agent a user
  record with tool-result blocks none of whose ids is among the agent's open tools
  changes no agent and posts nothing at that moment; what it does is to arm, for each
  such block in order, a timeout of 300 ms, and each of these, when it fires next, posts
  \<open>agentToolDone(id, toolId)\<close> for its block.  So an \<open>agentToolDone\<close> need not come after an
  \<open>agentToolStart\<close> of its id.  A tool-result block that the loop acts on leaves its id
  out of the open tools, so that a second one for the same id is of this kind.
\<close>

theorem unmatched_tool_result:
  "(map_of (agents (run parse evs init)) k = Some a \<longrightarrow> parse line = Some r \<longrightarrow>
    rec_type r = Some (js ''user'') \<longrightarrow> rec_content r = Blocks bs \<longrightarrow>
    someType (js ''tool_result'') bs = Inr True \<longrightarrow>
    set (resultIds bs) \<inter> activeToolIds a = {} \<longrightarrow>
      processTranscriptLine parse k line (run parse evs init) =
        fold (\<lambda>tid. addTimer (Timeout 300 (ToolDoneFire k tid))) (resultIds bs) (run parse evs init) \<and>
      agents (processTranscriptLine parse k line (run parse evs init)) = agents (run parse evs init) \<and>
      posted (processTranscriptLine parse k line (run parse evs init)) = posted (run parse evs init) \<and>
      (\<forall>i < length (resultIds bs).
         timers (processTranscriptLine parse k line (run parse evs init))
           (nextTimer (run parse evs init) + i) =
           Some (Timeout 300 (ToolDoneFire k (resultIds bs ! i))) \<and>
         posted (fire parse e (nextTimer (run parse evs init) + i)
                   (processTranscriptLine parse k line (run parse evs init))) =
           posted (run parse evs init) @ [AgentToolDone k (resultIds bs ! i)])) \<and>
   (map_of (agents s) k = Some a \<longrightarrow> b_type b = js ''tool_result'' \<longrightarrow>
    b_tool_use_id b = Some tid \<longrightarrow> tid \<noteq> [] \<longrightarrow>
      (\<exists>a'. map_of (agents (toolResult k b s)) k = Some a' \<and> tid \<notin> activeToolIds a'))"
proof -
  have c: "coherent (run parse evs init)"
    by (rule coherent_run [OF coherent_init])
  have "processTranscriptLine parse k line (run parse evs init) =
          interpretRecord k r (run parse evs init)"
    if "map_of (agents (run parse evs init)) k = Some a" "parse line = Some r"
    using that by (simp add: processTranscriptLine_def)
  then show ?thesis
    using unmatched_results(1,2,3) [OF c, where k = k and a = a and r = r and bs = bs]
      unmatched_results(4) [OF c, where k = k and a = a and r = r and bs = bs
        and parse = parse and e = e]
      toolResult_closes [where s = s and k = k and a = a and b = b and tid = tid]
    by (intro conjI impI) simp_all
qed

theorem unmatched_tool_result_witness:
  "resultIds [Some ((ex_block ''tool_result'')\<lparr> b_tool_use_id := Some (js ''t1'') \<rparr>)] = [js ''t1''] \<and>
   agents (processTranscriptLine ex_parse 1 (js line_tool_result) (run ex_parse ex_open init)) =
     [(1, ex_agent)] \<and>
   posted (processTranscriptLine ex_parse 1 (js line_tool_result) (run ex_parse ex_open init)) =
     [AgentCreated 1] \<and>
   timers (processTranscriptLine ex_parse 1 (js line_tool_result) (run ex_parse ex_open init)) 2 =
     Some (Timeout 300 (ToolDoneFire 1 (js ''t1''))) \<and>
   posted (fire ex_parse (ex_env []) 2
      (processTranscriptLine ex_parse 1 (js line_tool_result) (run ex_parse ex_open init))) =
     [AgentCreated 1, AgentToolDone 1 (js ''t1'')] \<and>
   (\<exists>a'. map_of (agents (toolResult 1
        ((ex_block ''tool_result'')\<lparr> b_tool_use_id := Some (js ''t1'') \<rparr>) ex_base)) 1 = Some a' \<and>
      js ''t1'' \<notin> activeToolIds a')"
proof -
  define b where "b = (ex_block ''tool_result'')\<lparr> b_tool_use_id := Some (js ''t1'') \<rparr>"
  have ids: "resultIds [Some b] = [js ''t1'']"
    by (simp add: b_def ex_block_def)
  have h: "map_of (agents (run ex_parse ex_open init)) 1 = Some ex_agent"
    "ex_parse (js line_tool_result) = Some (ex_record ''user'' (Blocks [Some b]))"
    "rec_type (ex_record ''user'' (Blocks [Some b])) = Some (js ''user'')"
    "rec_content (ex_record ''user'' (Blocks [Some b])) = Blocks [Some b]"
    "someType (js ''tool_result'') [Some b] = Inr True"
    "set (resultIds [Some b]) \<inter> activeToolIds ex_agent = {}"
    "map_of (agents ex_base) 1 = Some ex_agent"
    "b_type b = js ''tool_result''" "b_tool_use_id b = Some (js ''t1'')" "js ''t1'' \<noteq> []"
    using ex_parse_lines(3)
    by (simp_all add: ex_open_base ex_base_fields ex_record_def b_def ex_block_def ex_agent_def)
  note T = unmatched_tool_result [of ex_parse ex_open 1 ex_agent "js line_tool_result"
      "ex_record ''user'' (Blocks [Some b])" "[Some b]" "ex_env []" ex_base b "js ''t1''"]
  from T h have 1:
    "agents (processTranscriptLine ex_parse 1 (js line_tool_result) (run ex_parse ex_open init)) =
       agents (run ex_parse ex_open init)"
    "posted (processTranscriptLine ex_parse 1 (js line_tool_result) (run ex_parse ex_open init)) =
       posted (run ex_parse ex_open init)"
    by blast+
  from T h have "\<forall>i < length (resultIds [Some b]).
         timers (processTranscriptLine ex_parse 1 (js line_tool_result) (run ex_parse ex_open init))
           (nextTimer (run ex_parse ex_open init) + i) =
           Some (Timeout 300 (ToolDoneFire 1 (resultIds [Some b] ! i))) \<and>
         posted (fire ex_parse (ex_env []) (nextTimer (run ex_parse ex_open init) + i)
                   (processTranscriptLine ex_parse 1 (js line_tool_result) (run ex_parse ex_open init))) =
           posted (run ex_parse ex_open init) @ [AgentToolDone 1 (resultIds [Some b] ! i)]"
    by blast
  then have 2:
    "timers (processTranscriptLine ex_parse 1 (js line_tool_result) (run ex_parse ex_open init)) 2 =
       Some (Timeout 300 (ToolDoneFire 1 (js ''t1'')))"
    "posted (fire ex_parse (ex_env []) 2
      (processTranscriptLine ex_parse 1 (js line_tool_result) (run ex_parse ex_open init))) =
     [AgentCreated 1, AgentToolDone 1 (js ''t1'')]"
    unfolding ids by (simp_all add: ex_open_base ex_base_fields)
  from T h have 3: "\<exists>a'. map_of (agents (toolResult 1 b ex_base)) 1 = Some a' \<and>
      js ''t1'' \<notin> activeToolIds a'"
    by blast
  from ids 1 2 3 show ?thesis
    unfolding b_def [symmetric] by (simp add: ex_open_base ex_base_def)
qed

text \<open>
  C9.  The delayed tool-done message outlives its agent.  The agent opens the tool \<open>t1\<close> and
  gets its result, which arms the timeout of line 417; within the 300 ms the terminal is
  closed and the agent removed.  \<open>removeAgent\<close> cancels the poll and the waiting debounce,
  but this timeout is kept in no table and its callback does not look the agent up: when
  it fires, \<open>agentToolDone\<close> is posted for the id of the agent that is gone.
\<close>

theorem tool_done_after_teardown:
  "agents (run ex_parse
      (ex_open @ [FileChanged (ex_env (line_tool_use @ nl @ line_tool_result @ nl)) 1,
                  CloseTerminal 0]) init) = [] \<and>
   posted (run ex_parse
      (ex_open @ [FileChanged (ex_env (line_tool_use @ nl @ line_tool_result @ nl)) 1,
                  CloseTerminal 0]) init) =
     [AgentCreated 1, AgentStatus 1 Active, AgentToolStart 1 (js ''t1'') (js ''Reading a.ts''),
      AgentClosed 1] \<and>
   timers (run ex_parse
      (ex_open @ [FileChanged (ex_env (line_tool_use @ nl @ line_tool_result @ nl)) 1,
                  CloseTerminal 0]) init) =
     [2 \<mapsto> Timeout 300 (ToolDoneFire 1 (js ''t1''))] \<and>
   posted (run ex_parse
      (ex_open @ [FileChanged (ex_env (line_tool_use @ nl @ line_tool_result @ nl)) 1,
                  CloseTerminal 0, Fire (ex_env []) 2]) init) =
     [AgentCreated 1, AgentStatus 1 Active, AgentToolStart 1 (js ''t1'') (js ''Reading a.ts''),
      AgentClosed 1, AgentToolDone 1 (js ''t1'')]"
  by (simp only: run_two run_three ex_open_base ex_tool_cycle ex_closed ex_closed_fired)
     (simp add: init_def)

lemma toolStart_timers:
  "toolStart j b t = Inr t' \<Longrightarrow> waitingTimers t' = waitingTimers t \<and> webviewView t' = webviewView t"
  by (auto simp: toolStart_def split: option.splits if_splits sum.splits)

lemma toolStartLoop_timers:
  "waitingTimers (toolStartLoop k bs s) = waitingTimers s \<and>
   webviewView (toolStartLoop k bs s) = webviewView s"
  by (rule toolStartLoop_rel
        [where R = "\<lambda>t t'. waitingTimers t' = waitingTimers t \<and> webviewView t' = webviewView t"])
     (simp_all add: toolStart_timers)

lemma map_entry_waiting:
  "(\<And>a. isWaiting (f a) = isWaiting a) \<Longrightarrow>
   map (\<lambda>p. (fst p, isWaiting (snd p))) (AList.map_entry k f xs) =
   map (\<lambda>p. (fst p, isWaiting (snd p))) xs"
  by (induction xs) auto

lemma toolStart_waiting:
  "toolStart j b t = Inr t' \<Longrightarrow>
   map (\<lambda>p. (fst p, isWaiting (snd p))) (agents t') = map (\<lambda>p. (fst p, isWaiting (snd p))) (agents t)"
  by (auto simp: toolStart_def map_entry_waiting split: option.splits if_splits sum.splits)

lemma toolStartLoop_waiting:
  "map (\<lambda>p. (fst p, isWaiting (snd p))) (agents (toolStartLoop k bs s)) =
   map (\<lambda>p. (fst p, isWaiting (snd p))) (agents s)"
  by (rule toolStartLoop_rel
        [where R = "\<lambda>t t'. map (\<lambda>p. (fst p, isWaiting (snd p))) (agents t') =
                            map (\<lambda>p. (fst p, isWaiting (snd p))) (agents t)"])
     (simp_all add: toolStart_waiting)

lemma same_waiting_map_of:
  "map (\<lambda>p. (fst p, isWaiting (snd p))) ys = map (\<lambda>p. (fst p, isWaiting (snd p))) xs \<Longrightarrow>
   map_of xs k = Some a \<Longrightarrow> \<exists>a'. map_of ys k = Some a' \<and> isWaiting a' = isWaiting a"
proof (induction xs arbitrary: ys)
  case (Cons x xs)
  then obtain y ys' where ys: "ys = y # ys'" by (cases ys) auto
  with Cons.prems(1) have h: "fst y = fst x" "isWaiting (snd y) = isWaiting (snd x)"
    and t: "map (\<lambda>p. (fst p, isWaiting (snd p))) ys' = map (\<lambda>p. (fst p, isWaiting (snd p))) xs"
    by simp_all
  show ?case
  proof (cases "fst x = k")
    case True
    with Cons.prems(2) have "snd x = a" by (cases x) auto
    with True h ys show ?thesis by (cases y) auto
  next
    case False
    with Cons.prems(2) have "map_of xs k = Some a" by (cases x) auto
    from Cons.IH [OF t this] False h ys show ?thesis by (cases y) auto
  qed
qed simp

lemma toolStartLoop_posts:
  "\<exists>ms. posted (toolStartLoop k bs s) = posted s @ ms \<and> list_all (isToolStart k) ms"
proof (induction k bs s rule: toolStartLoop.induct)
  case (3 agentId b bs s)
  show ?case
  proof (cases "toolStart agentId b s")
    case (Inl err)
    then show ?thesis by simp
  next
    case (Inr s')
    then have "\<exists>ms. posted s' = posted s @ ms \<and> list_all (isToolStart agentId) ms"
      by (auto simp: toolStart_def isToolStart_def split: option.splits if_splits sum.splits)
    then obtain ms where ms: "posted s' = posted s @ ms" "list_all (isToolStart agentId) ms"
      by blast
    from "3.IH" [OF Inr] obtain ms' where
      ms': "posted (toolStartLoop agentId bs s') = posted s' @ ms'" "list_all (isToolStart agentId) ms'"
      by blast
    from ms ms' have "posted (toolStartLoop agentId bs s') = posted s @ (ms @ ms') \<and>
        list_all (isToolStart agentId) (ms @ ms')"
      by simp
    then show ?thesis
      using Inr by (simp del: append_assoc)
  qed
qed simp_all

lemma interpret_tool_use:
  "rec_type r = Some (js ''assistant'') \<Longrightarrow> rec_content r = Blocks bs \<Longrightarrow>
   someType (js ''tool_use'') bs = Inr True \<Longrightarrow>
   interpretRecord k r s =
     toolStartLoop k bs
       (post (AgentStatus k Active) (modify k (\<lambda>a. a\<lparr>isWaiting := False\<rparr>) (cancelWaitingTimer k s)))"
  by (simp add: interpretRecord_def)

lemma tool_use_active:
  assumes c: "coherent s" and a: "map_of (agents s) k = Some a" and p: "parse line = Some r"
    and r: "rec_type r = Some (js ''assistant'')" "rec_content r = Blocks bs"
      "someType (js ''tool_use'') bs = Inr True"
  shows "take (Suc (length (posted s))) (posted (processTranscriptLine parse k line s)) =
           posted s @ [AgentStatus k Active] \<and>
         list_all (isToolStart k)
           (drop (Suc (length (posted s))) (posted (processTranscriptLine parse k line s))) \<and>
         pendingWaiting (processTranscriptLine parse k line s) k = [] \<and>
         (\<exists>a'. map_of (agents (processTranscriptLine parse k line s)) k = Some a' \<and> \<not> isWaiting a')"
proof -
  define s0 where "s0 = post (AgentStatus k Active)
      (modify k (\<lambda>a. a\<lparr>isWaiting := False\<rparr>) (cancelWaitingTimer k s))"
  define s' where "s' = processTranscriptLine parse k line s"
  have eq: "s' = toolStartLoop k bs s0"
    unfolding s'_def s0_def processTranscriptLine_interpret [of s k a parse line r, OF a p]
    by (rule interpret_tool_use [OF r])
  have v: "webviewView s" by (rule coherent_webviewView [OF c a])
  have p0: "posted s0 = posted s @ [AgentStatus k Active]"
    by (simp add: s0_def v)
  from toolStartLoop_posts [of k bs s0] obtain ms where
    ms: "posted s' = posted s0 @ ms" "list_all (isToolStart k) ms"
    unfolding eq by blast
  have 1: "take (Suc (length (posted s))) (posted s') = posted s @ [AgentStatus k Active]"
    and 2: "list_all (isToolStart k) (drop (Suc (length (posted s))) (posted s'))"
    using ms by (simp_all add: p0)
  have "tinv s'"
    unfolding s'_def by (rule tinv_processTranscriptLine [OF coherent_tinv [OF c]])
  from pendingWaiting_tinv [OF this, of k] have 3: "pendingWaiting s' k = []"
    using toolStartLoop_timers [of k bs s0] by (simp add: eq s0_def)
  have "map_of (agents s0) k = Some (a\<lparr>isWaiting := False\<rparr>)"
    using a by (simp add: s0_def map_of_map_entry)
  from same_waiting_map_of [OF toolStartLoop_waiting this, of k bs]
  have 4: "\<exists>a'. map_of (agents s') k = Some a' \<and> \<not> isWaiting a'"
    by (simp add: eq)
  from 1 2 3 4 show ?thesis
    unfolding s'_def by blast
qed

lemma ex_tool_use_then_text:
  "run ex_parse [FileChanged (ex_env (line_tool_use @ nl @ line_text @ nl)) 1] ex_base =
     ex_base\<lparr> agents := [(1, ex_agent\<lparr> fileOffset := 194, activeToolIds := {js ''t1''},
                               activeToolStatuses := [(js ''t1'', js ''Reading a.ts'')] \<rparr>)],
              waitingTimers := [1 \<mapsto> 2],
              timers := [0 \<mapsto> Interval 1000 (ScanTick 0 (Some (js ''s1''))),
                         1 \<mapsto> Interval 2000 (PollTick 1),
                         2 \<mapsto> Timeout 2000 (WaitingFire 1)],
              nextTimer := 3,
              posted := [AgentCreated 1, AgentStatus 1 Active,
                         AgentToolStart 1 (js ''t1'') (js ''Reading a.ts'')] \<rparr>"
  by (simp add: model_defs ex_defs ex_base_def)

lemma ex_tool_use_then_text_fired:
  "run ex_parse [Fire e 2]
     (ex_base\<lparr> agents := [(1, ex_agent\<lparr> fileOffset := 194, activeToolIds := {js ''t1''},
                               activeToolStatuses := [(js ''t1'', js ''Reading a.ts'')] \<rparr>)],
              waitingTimers := [1 \<mapsto> 2],
              timers := [0 \<mapsto> Interval 1000 (ScanTick 0 (Some (js ''s1''))),
                         1 \<mapsto> Interval 2000 (PollTick 1),
                         2 \<mapsto> Timeout 2000 (WaitingFire 1)],
              nextTimer := 3,
              posted := [AgentCreated 1, AgentStatus 1 Active,
                         AgentToolStart 1 (js ''t1'') (js ''Reading a.ts'')] \<rparr>) =
     ex_base\<lparr> agents := [(1, ex_agent\<lparr> fileOffset := 194, activeToolIds := {js ''t1''},
                               activeToolStatuses := [(js ''t1'', js ''Reading a.ts'')],
                               isWaiting := True \<rparr>)],
              nextTimer := 3,
              posted := [AgentCreated 1, AgentStatus 1 Active,
                         AgentToolStart 1 (js ''t1'') (js ''Reading a.ts''),
                         AgentStatus 1 Waiting] \<rparr>"
  by (simp add: model_defs ex_defs ex_base_def)

text \<open>
  C6, as the specification has it, fails: \<open>waiting\<close> is reported for an agent with an open
  tool.  The agent writes a record that invokes the tool \<open>t1\<close> and then a text-only record,
  which arms the debounce; no result for \<open>t1\<close> arrives within 2 s and the timeout fires.
  Lines 355 to 364 do not look at \<open>activeToolIds\<close>: \<open>agentStatus(1, waiting)\<close> is posted while
  \<open>t1\<close> is open.
\<close>

theorem waiting_while_tool_open:
  "map_of (agents (run ex_parse
      (ex_open @ [FileChanged (ex_env (line_tool_use @ nl @ line_text @ nl)) 1]) init)) 1 =
     Some (ex_agent\<lparr> fileOffset := 194, activeToolIds := {js ''t1''},
                      activeToolStatuses := [(js ''t1'', js ''Reading a.ts'')] \<rparr>) \<and>
   map_of (agents (run ex_parse
      (ex_open @ [FileChanged (ex_env (line_tool_use @ nl @ line_text @ nl)) 1,
                  Fire (ex_env (line_tool_use @ nl @ line_text @ nl)) 2]) init)) 1 =
     Some (ex_agent\<lparr> fileOffset := 194, activeToolIds := {js ''t1''},
                      activeToolStatuses := [(js ''t1'', js ''Reading a.ts'')],
                      isWaiting := True \<rparr>) \<and>
   posted (run ex_parse
      (ex_open @ [FileChanged (ex_env (line_tool_use @ nl @ line_text @ nl)) 1,
                  Fire (ex_env (line_tool_use @ nl @ line_text @ nl)) 2]) init) =
     [AgentCreated 1, AgentStatus 1 Active, AgentToolStart 1 (js ''t1'') (js ''Reading a.ts''),
      AgentStatus 1 Waiting]"
proof -
  have 1: "run ex_parse
      (ex_open @ [FileChanged (ex_env (line_tool_use @ nl @ line_text @ nl)) 1]) init =
    ex_base\<lparr> agents := [(1, ex_agent\<lparr> fileOffset := 194, activeToolIds := {js ''t1''},
                               activeToolStatuses := [(js ''t1'', js ''Reading a.ts'')] \<rparr>)],
              waitingTimers := [1 \<mapsto> 2],
              timers := [0 \<mapsto> Interval 1000 (ScanTick 0 (Some (js ''s1''))),
                         1 \<mapsto> Interval 2000 (PollTick 1),
                         2 \<mapsto> Timeout 2000 (WaitingFire 1)],
              nextTimer := 3,
              posted := [AgentCreated 1, AgentStatus 1 Active,
                         AgentToolStart 1 (js ''t1'') (js ''Reading a.ts'')] \<rparr>"
    by (simp only: run_append ex_open_base ex_tool_use_then_text)
  have 2: "run ex_parse
      (ex_open @ [FileChanged (ex_env (line_tool_use @ nl @ line_text @ nl)) 1,
                  Fire (ex_env (line_tool_use @ nl @ line_text @ nl)) 2]) init =
     ex_base\<lparr> agents := [(1, ex_agent\<lparr> fileOffset := 194, activeToolIds := {js ''t1''},
                               activeToolStatuses := [(js ''t1'', js ''Reading a.ts'')],
                               isWaiting := True \<rparr>)],
              nextTimer := 3,
              posted := [AgentCreated 1, AgentStatus 1 Active,
                         AgentToolStart 1 (js ''t1'') (js ''Reading a.ts''),
                         AgentStatus 1 Waiting] \<rparr>"
    by (simp only: run_two ex_open_base ex_tool_use_then_text ex_tool_use_then_text_fired)
  show ?thesis
    unfolding 1 2 by (simp del: One_nat_def)
qed

text \<open>
  C6, amended.  In a state the event loop can reach, processing for a live agent an
  assistant record with a tool invocation reports \<open>active\<close>: it posts
  \<open>agentStatus(id, active)\<close> first and after it nothing but tool starts of this agent, it
  clears \<open>isWaiting\<close> and it leaves no debounce timeout of the agent pending, so that no
  \<open>waiting\<close> from an earlier text follows it.  The open tools are not asked when \<open>waiting\<close> is
  reported, though: a turn-completion record, and a debounce timeout armed later that
  fires, post \<open>agentStatus(id, waiting)\<close> and set \<open>isWaiting\<close> whatever tools the agent has
  open, and leave them open.
\<close>

theorem active_on_tool_use:
  "(map_of (agents (run parse evs init)) k = Some a \<longrightarrow> parse line = Some r \<longrightarrow>
    rec_type r = Some (js ''assistant'') \<longrightarrow> rec_content r = Blocks bs \<longrightarrow>
    someType (js ''tool_use'') bs = Inr True \<longrightarrow>
      take (Suc (length (posted (run parse evs init))))
        (posted (processTranscriptLine parse k line (run parse evs init))) =
        posted (run parse evs init) @ [AgentStatus k Active] \<and>
      list_all (isToolStart k)
        (drop (Suc (length (posted (run parse evs init))))
           (posted (processTranscriptLine parse k line (run parse evs init)))) \<and>
      pendingWaiting (processTranscriptLine parse k line (run parse evs init)) k = [] \<and>
      (\<exists>a'. map_of (agents (processTranscriptLine parse k line (run parse evs init))) k = Some a' \<and>
         \<not> isWaiting a')) \<and>
   (map_of (agents (run parse evs init)) k = Some a \<longrightarrow> parse line = Some r \<longrightarrow>
    rec_type r = Some (js ''system'') \<longrightarrow> rec_subtype r = Some (js ''turn_duration'') \<longrightarrow>
      posted (processTranscriptLine parse k line (run parse evs init)) =
        posted (run parse evs init) @ [AgentStatus k Waiting] \<and>
      map_of (agents (processTranscriptLine parse k line (run parse evs init))) k =
        Some (a\<lparr>isWaiting := True\<rparr>)) \<and>
   (map_of (agents (run parse evs init)) k = Some a \<longrightarrow>
    timers (run parse evs init) h = Some (Timeout d (WaitingFire k)) \<longrightarrow>
      posted (fire parse e h (run parse evs init)) =
        posted (run parse evs init) @ [AgentStatus k Waiting] \<and>
      map_of (agents (fire parse e h (run parse evs init))) k = Some (a\<lparr>isWaiting := True\<rparr>))"
proof -
  have c: "coherent (run parse evs init)"
    by (rule coherent_run [OF coherent_init])
  have "posted (fire parse e h (run parse evs init)) =
        posted (run parse evs init) @ [AgentStatus k Waiting] \<and>
      map_of (agents (fire parse e h (run parse evs init))) k = Some (a\<lparr>isWaiting := True\<rparr>)"
    if "map_of (agents (run parse evs init)) k = Some a"
      "timers (run parse evs init) h = Some (Timeout d (WaitingFire k))"
    using fire_waiting(1,4) [OF c that(2), of parse e] that(1) by (simp add: map_of_map_entry)
  then show ?thesis
    using tool_use_active [OF c, where k = k and a = a and line = line and r = r and bs = bs
        and parse = parse]
      turn_completion_wins [OF c, where k = k and a = a and line = line and r = r and e = e
        and parse = parse]
    by blast
qed

theorem active_on_tool_use_witness:
  "take 2 (posted (processTranscriptLine ex_parse 1 (js line_tool_use) (run ex_parse ex_open init))) =
     [AgentCreated 1, AgentStatus 1 Active] \<and>
   pendingWaiting (processTranscriptLine ex_parse 1 (js line_tool_use) (run ex_parse ex_open init)) 1 = [] \<and>
   posted (processTranscriptLine ex_parse 1 (js line_turn)
      (run ex_parse (ex_open @ [FileChanged (ex_env (line_tool_use @ nl)) 1]) init)) =
     [AgentCreated 1, AgentStatus 1 Active, AgentToolStart 1 (js ''t1'') (js ''Reading a.ts''),
      AgentStatus 1 Waiting] \<and>
   map_of (agents (processTranscriptLine ex_parse 1 (js line_turn)
      (run ex_parse (ex_open @ [FileChanged (ex_env (line_tool_use @ nl)) 1]) init))) 1 =
     Some (ex_agent\<lparr> fileOffset := 121, activeToolIds := {js ''t1''},
                      activeToolStatuses := [(js ''t1'', js ''Reading a.ts'')],
                      isWaiting := True \<rparr>) \<and>
   posted (fire ex_parse (ex_env []) 2
      (run ex_parse (ex_open @ [FileChanged (ex_env (line_tool_use @ nl @ line_text @ nl)) 1]) init)) =
     [AgentCreated 1, AgentStatus 1 Active, AgentToolStart 1 (js ''t1'') (js ''Reading a.ts''),
      AgentStatus 1 Waiting] \<and>
   map_of (agents (fire ex_parse (ex_env []) 2
      (run ex_parse (ex_open @ [FileChanged (ex_env (line_tool_use @ nl @ line_text @ nl)) 1]) init))) 1 =
     Some (ex_agent\<lparr> fileOffset := 194, activeToolIds := {js ''t1''},
                      activeToolStatuses := [(js ''t1'', js ''Reading a.ts'')],
                      isWaiting := True \<rparr>)"
proof -
  define b where "b = (ex_block ''tool_use'')
             \<lparr> b_id := Some (js ''t1''), b_name := Some (js ''Read''),
               b_input := Some [js ''file_path'' \<mapsto> JString (js ''/w/a.ts'')] \<rparr>"
  define S2 where "S2 = run ex_parse (ex_open @ [FileChanged (ex_env (line_tool_use @ nl)) 1]) init"
  define S3 where
    "S3 = run ex_parse (ex_open @ [FileChanged (ex_env (line_tool_use @ nl @ line_text @ nl)) 1]) init"
  have h1: "map_of (agents (run ex_parse ex_open init)) 1 = Some ex_agent"
    "ex_parse (js line_tool_use) = Some (ex_record ''assistant'' (Blocks [Some b]))"
    "rec_type (ex_record ''assistant'' (Blocks [Some b])) = Some (js ''assistant'')"
    "rec_content (ex_record ''assistant'' (Blocks [Some b])) = Blocks [Some b]"
    "someType (js ''tool_use'') [Some b] = Inr True"
    "posted (run ex_parse ex_open init) = [AgentCreated 1]"
    using ex_parse_lines(4)
    by (simp_all add: ex_open_base ex_base_fields ex_record_def b_def ex_block_def)
  note T1 = active_on_tool_use [of ex_parse ex_open 1 ex_agent "js line_tool_use"
      "ex_record ''assistant'' (Blocks [Some b])" "[Some b]"]
  from T1 h1 have 1:
    "take (Suc (length (posted (run ex_parse ex_open init))))
       (posted (processTranscriptLine ex_parse 1 (js line_tool_use) (run ex_parse ex_open init))) =
     posted (run ex_parse ex_open init) @ [AgentStatus 1 Active]"
    "pendingWaiting (processTranscriptLine ex_parse 1 (js line_tool_use) (run ex_parse ex_open init)) 1 = []"
    by blast+
  have S2: "S2 = ex_base\<lparr> agents := [(1, ex_agent\<lparr> fileOffset := 121, activeToolIds := {js ''t1''},
                               activeToolStatuses := [(js ''t1'', js ''Reading a.ts'')] \<rparr>)],
              posted := [AgentCreated 1, AgentStatus 1 Active,
                         AgentToolStart 1 (js ''t1'') (js ''Reading a.ts'')] \<rparr>"
    unfolding S2_def by (simp only: run_append ex_open_base ex_tool_use)
  have h2: "map_of (agents S2) 1 = Some (ex_agent\<lparr> fileOffset := 121, activeToolIds := {js ''t1''},
                               activeToolStatuses := [(js ''t1'', js ''Reading a.ts'')] \<rparr>)"
    "posted S2 = [AgentCreated 1, AgentStatus 1 Active,
                         AgentToolStart 1 (js ''t1'') (js ''Reading a.ts'')]"
    "rec_type ((ex_record ''system'' NoContent)\<lparr> rec_subtype := Some (js ''turn_duration'') \<rparr>) =
       Some (js ''system'')"
    "rec_subtype ((ex_record ''system'' NoContent)\<lparr> rec_subtype := Some (js ''turn_duration'') \<rparr>) =
       Some (js ''turn_duration'')"
    by (simp_all add: S2 ex_record_def)
  note T2 = active_on_tool_use [of ex_parse "ex_open @ [FileChanged (ex_env (line_tool_use @ nl)) 1]" 1
      "ex_agent\<lparr> fileOffset := 121, activeToolIds := {js ''t1''},
                               activeToolStatuses := [(js ''t1'', js ''Reading a.ts'')] \<rparr>"
      "js line_turn"
      "(ex_record ''system'' NoContent)\<lparr> rec_subtype := Some (js ''turn_duration'') \<rparr>",
      folded S2_def]
  from T2 h2 ex_parse_lines(2) have 2:
    "posted (processTranscriptLine ex_parse 1 (js line_turn) S2) =
       posted S2 @ [AgentStatus 1 Waiting]"
    "map_of (agents (processTranscriptLine ex_parse 1 (js line_turn) S2)) 1 =
       Some (ex_agent\<lparr> fileOffset := 121, activeToolIds := {js ''t1''},
                               activeToolStatuses := [(js ''t1'', js ''Reading a.ts'')],
                               isWaiting := True \<rparr>)"
    by simp_all
  have S3: "S3 = ex_base\<lparr> agents := [(1, ex_agent\<lparr> fileOffset := 194, activeToolIds := {js ''t1''},
                               activeToolStatuses := [(js ''t1'', js ''Reading a.ts'')] \<rparr>)],
              waitingTimers := [1 \<mapsto> 2],
              timers := [0 \<mapsto> Interval 1000 (ScanTick 0 (Some (js ''s1''))),
                         1 \<mapsto> Interval 2000 (PollTick 1),
                         2 \<mapsto> Timeout 2000 (WaitingFire 1)],
              nextTimer := 3,
              posted := [AgentCreated 1, AgentStatus 1 Active,
                         AgentToolStart 1 (js ''t1'') (js ''Reading a.ts'')] \<rparr>"
    unfolding S3_def by (simp only: run_append ex_open_base ex_tool_use_then_text)
  have h3: "map_of (agents S3) 1 = Some (ex_agent\<lparr> fileOffset := 194, activeToolIds := {js ''t1''},
                               activeToolStatuses := [(js ''t1'', js ''Reading a.ts'')] \<rparr>)"
    "posted S3 = [AgentCreated 1, AgentStatus 1 Active,
                         AgentToolStart 1 (js ''t1'') (js ''Reading a.ts'')]"
    "timers S3 2 = Some (Timeout 2000 (WaitingFire 1))"
    by (simp_all add: S3)
  note T3 = active_on_tool_use [of ex_parse
      "ex_open @ [FileChanged (ex_env (line_tool_use @ nl @ line_text @ nl)) 1]" 1
      "ex_agent\<lparr> fileOffset := 194, activeToolIds := {js ''t1''},
                               activeToolStatuses := [(js ''t1'', js ''Reading a.ts'')] \<rparr>"
      _ _ _ 2 2000 "ex_env []", folded S3_def]
  from T3 h3 have 3:
    "posted (fire ex_parse (ex_env []) 2 S3) = posted S3 @ [AgentStatus 1 Waiting]"
    "map_of (agents (fire ex_parse (ex_env []) 2 S3)) 1 =
       Some (ex_agent\<lparr> fileOffset := 194, activeToolIds := {js ''t1''},
                               activeToolStatuses := [(js ''t1'', js ''Reading a.ts'')],
                               isWaiting := True \<rparr>)"
    by simp_all
  have F1: "take 2 (posted (processTranscriptLine ex_parse 1 (js line_tool_use)
        (run ex_parse ex_open init))) = [AgentCreated 1, AgentStatus 1 Active]"
    using 1(1) by (simp add: h1(6) numeral_2_eq_2)
  have F2: "posted (processTranscriptLine ex_parse 1 (js line_turn) S2) =
     [AgentCreated 1, AgentStatus 1 Active, AgentToolStart 1 (js ''t1'') (js ''Reading a.ts''),
      AgentStatus 1 Waiting]"
    using 2(1) by (simp add: h2(2))
  have F3: "posted (fire ex_parse (ex_env []) 2 S3) =
     [AgentCreated 1, AgentStatus 1 Active, AgentToolStart 1 (js ''t1'') (js ''Reading a.ts''),
      AgentStatus 1 Waiting]"
    using 3(1) by (simp add: h3(2))
  from F1 1(2) F2 2(2) F3 3(2) show ?thesis
    unfolding S2_def [symmetric] S3_def [symmetric] by blast
qed

end
